theory Spec2Isabelle
  imports Main
begin

section \<open>Data model of sudoku.c\<close>

text \<open>
  The puzzle is an \<^verbatim>\<open>int **grid\<close> read at \<^verbatim>\<open>grid[1..psize][1..psize]\<close>; row 0 and
  column 0 are never touched. The grid is modelled as the function from (row, column) to the
  cell's content. C \<^verbatim>\<open>int\<close> is modelled as \<open>int\<close>: the code does arithmetic only on
  loop counters bounded by the puzzle size and on array lengths of at most \<open>3 * psize\<close>, so
  no overflow arises for any puzzle whose arrays fit in memory.

  Behaviour that C leaves undefined is a fault value of the model, so that no theorem
  silently covers it: indexing one of the local arrays \<^verbatim>\<open>seen\<close> and \<^verbatim>\<open>possible\<close>
  (each of length \<open>psize + 1\<close>) outside its bounds, declaring an array of negative length,
  converting the NaN that \<^verbatim>\<open>sqrt\<close> returns on a negative argument to \<^verbatim>\<open>int\<close>, and
  reading a local variable that was never assigned. An array of length 0 is accepted, as
  the compilers the program is built with accept it.
\<close>

datatype fault = OutOfBounds | NegativeLength | NanToInt | Uninitialised

type_synonym grid = "int \<Rightarrow> int \<Rightarrow> int"

text \<open>
  \<^verbatim>\<open>readSudokuPuzzle\<close> stores the tokens of the file, given here row by row, at
  \<^verbatim>\<open>agrid[row][col]\<close> for \<open>row\<close> and \<open>col\<close> from 1.
\<close>

definition readSudokuPuzzle :: "int list list \<Rightarrow> grid" where
  "readSudokuPuzzle rows = (\<lambda>r c. rows ! nat (r - 1) ! nat (c - 1))"

text \<open>
  The struct \<^verbatim>\<open>parameters\<close>. Its field \<^verbatim>\<open>grid\<close> always points to the one shared grid,
  which lives in the store below; its fields \<^verbatim>\<open>complete\<close> and \<^verbatim>\<open>invalid\<close> always point
  to \<^verbatim>\<open>listComplete[threadIndex]\<close> and \<^verbatim>\<open>listInvalid[threadIndex]\<close> with the same index,
  which is the field \<open>slot\<close>.
\<close>

record parameters =
  row :: int
  column :: int
  psize :: int
  slot :: nat

text \<open>The memory the threads of \<^verbatim>\<open>checkPuzzle\<close> share.\<close>

record store =
  cells :: grid
  listInvalid :: "bool list"
  listComplete :: "bool list"

text \<open>Reading and writing a local \<^verbatim>\<open>bool\<close> array at an \<^verbatim>\<open>int\<close> index.\<close>

definition rd :: "bool list \<Rightarrow> int \<Rightarrow> fault + bool" where
  "rd a i = (if 0 \<le> i \<and> nat i < length a then Inr (a ! nat i) else Inl OutOfBounds)"

definition wr :: "bool list \<Rightarrow> int \<Rightarrow> bool \<Rightarrow> fault + bool list" where
  "wr a i v = (if 0 \<le> i \<and> nat i < length a then Inr (a[nat i := v]) else Inl OutOfBounds)"

text \<open>A \<^verbatim>\<open>for\<close> loop over the given indices whose body may fault.\<close>

fun forEach :: "('a \<Rightarrow> 's \<Rightarrow> fault + 's) \<Rightarrow> 'a list \<Rightarrow> 's \<Rightarrow> fault + 's" where
  "forEach body [] s = Inr s"
| "forEach body (x # xs) s =
     (case body x s of Inl e \<Rightarrow> Inl e | Inr s' \<Rightarrow> forEach body xs s')"

text \<open>
  \<^verbatim>\<open>(int)sqrt(n)\<close> for \<open>n \<ge> 0\<close>: the correctly rounded double square root, truncated, is
  the integer square root for every 32-bit \<open>n\<close>. It is computed here by counting the
  \<open>k\<close> in \<open>1..n\<close> with \<open>k * k \<le> n\<close>.
\<close>

definition isqrt :: "int \<Rightarrow> int" where
  "isqrt n = int (length (takeWhile (\<lambda>k. k * k \<le> n) [1..n]))"

section \<open>solveMissingNumber\<close>

text \<open>
  The loop \<^verbatim>\<open>for (num = 1; num <= psize; ++num)\<close> that clears \<^verbatim>\<open>possible\<close> at the
  values found in the row and in the column of the cell.
\<close>

definition markStep :: "grid \<Rightarrow> int \<Rightarrow> int \<Rightarrow> int \<Rightarrow> bool list \<Rightarrow> fault + bool list" where
  "markStep g r c num possible =
     (case (if g r num > 0 then wr possible (g r num) False else Inr possible) of
        Inl e \<Rightarrow> Inl e
      | Inr possible' \<Rightarrow>
          (if g num c > 0 then wr possible' (g num c) False else Inr possible'))"

text \<open>
  The counting loop; its state is \<^verbatim>\<open>(countPossible, missingNum)\<close>. \<^verbatim>\<open>missingNum\<close> is
  declared without a value at the top of the function: \<open>None\<close> is that state.
  \<^verbatim>\<open>possible[num]\<close> is read at \<open>num\<close> in \<open>1..psize\<close> only, inside the array.
\<close>

definition countStep :: "bool list \<Rightarrow> int \<Rightarrow> int \<times> int option \<Rightarrow> int \<times> int option" where
  "countStep possible num = (\<lambda>(countPossible, missingNum).
     if possible ! nat num then (countPossible + 1, Some num) else (countPossible, missingNum))"

text \<open>The body of the two cell loops, on the state \<^verbatim>\<open>(grid, missingNum)\<close>.\<close>

definition solveCell :: "int \<Rightarrow> int \<Rightarrow> int \<Rightarrow> grid \<times> int option \<Rightarrow> fault + (grid \<times> int option)" where
  "solveCell psz r c = (\<lambda>(g, missingNum).
     if g r c = 0 then
       (case forEach (markStep g r c) [1..psz] (replicate (nat (psz + 1)) True) of
          Inl e \<Rightarrow> Inl e
        | Inr possible \<Rightarrow>
            (case fold (countStep possible) [1..psz] (0, missingNum) of
               (countPossible, missingNum') \<Rightarrow>
                 if countPossible = 1 then
                   (case missingNum' of
                      None \<Rightarrow> Inl Uninitialised
                    | Some m \<Rightarrow> Inr (g(r := (g r)(c := m)), missingNum'))
                 else Inr (g, missingNum')))
     else Inr (g, missingNum))"

definition solveMissingNumber :: "grid \<Rightarrow> int \<Rightarrow> fault + grid" where
  "solveMissingNumber g psz =
     (if psz + 1 < 0 then Inl NegativeLength
      else
        (case forEach (\<lambda>r. forEach (solveCell psz r) [1..psz]) [1..psz] (g, None) of
           Inl e \<Rightarrow> Inl e
         | Inr (g', missingNum) \<Rightarrow> Inr g'))"

section \<open>The unit checks\<close>

text \<open>
  The loop of \<^verbatim>\<open>checkRow\<close> over the columns still to visit, on the locals \<^verbatim>\<open>seen\<close> and
  \<^verbatim>\<open>rowComplete\<close> and the shared store; \<^verbatim>\<open>break\<close> returns without visiting the rest.
\<close>

fun checkRow_loop ::
  "parameters \<Rightarrow> int list \<Rightarrow> bool list \<Rightarrow> bool \<Rightarrow> store \<Rightarrow> fault + (bool \<times> store)" where
  "checkRow_loop data [] seen rowComplete st = Inr (rowComplete, st)"
| "checkRow_loop data (col # cols) seen rowComplete st =
     (let val = cells st (row data) col in
      if val \<le> 0 then checkRow_loop data cols seen False st
      else
        (case rd seen val of
           Inl e \<Rightarrow> Inl e
         | Inr hit \<Rightarrow>
             if hit then Inr (rowComplete, st\<lparr>listInvalid := (listInvalid st)[slot data := True]\<rparr>)
             else checkRow_loop data cols (seen[nat val := True]) rowComplete st))"

definition checkRow :: "parameters \<Rightarrow> store \<Rightarrow> fault + store" where
  "checkRow data st =
     (let sz = psize data in
      if sz + 1 < 0 then Inl NegativeLength
      else
        (case checkRow_loop data [1..sz] (replicate (nat (sz + 1)) False) True st of
           Inl e \<Rightarrow> Inl e
         | Inr (rowComplete, st') \<Rightarrow>
             Inr (if \<not> rowComplete
                  then st'\<lparr>listComplete := (listComplete st')[slot data := False]\<rparr>
                  else st')))"

fun checkCol_loop ::
  "parameters \<Rightarrow> int list \<Rightarrow> bool list \<Rightarrow> bool \<Rightarrow> store \<Rightarrow> fault + (bool \<times> store)" where
  "checkCol_loop data [] seen rowComplete st = Inr (rowComplete, st)"
| "checkCol_loop data (r # rs) seen rowComplete st =
     (let val = cells st r (column data) in
      if val \<le> 0 then checkCol_loop data rs seen False st
      else
        (case rd seen val of
           Inl e \<Rightarrow> Inl e
         | Inr hit \<Rightarrow>
             if hit then Inr (rowComplete, st\<lparr>listInvalid := (listInvalid st)[slot data := True]\<rparr>)
             else checkCol_loop data rs (seen[nat val := True]) rowComplete st))"

definition checkCol :: "parameters \<Rightarrow> store \<Rightarrow> fault + store" where
  "checkCol data st =
     (let sz = psize data in
      if sz + 1 < 0 then Inl NegativeLength
      else
        (case checkCol_loop data [1..sz] (replicate (nat (sz + 1)) False) True st of
           Inl e \<Rightarrow> Inl e
         | Inr (rowComplete, st') \<Rightarrow>
             Inr (if \<not> rowComplete
                  then st'\<lparr>listComplete := (listComplete st')[slot data := False]\<rparr>
                  else st')))"

text \<open>
  \<^verbatim>\<open>checkSubgrid\<close>: the inner loop over \<open>j\<close> with its counter \<^verbatim>\<open>incrementC\<close>; its
  \<^verbatim>\<open>break\<close> leaves the inner loop only. The outer loop over \<open>i\<close> resets
  \<^verbatim>\<open>incrementC\<close>, runs the inner loop and increments \<^verbatim>\<open>incrementR\<close>; \<^verbatim>\<open>seen\<close> lives
  across both.
\<close>

fun checkSubgrid_inner ::
  "parameters \<Rightarrow> int \<Rightarrow> int list \<Rightarrow> int \<Rightarrow> bool list \<Rightarrow> store \<Rightarrow> fault + (bool list \<times> store)" where
  "checkSubgrid_inner data incrementR [] incrementC seen st = Inr (seen, st)"
| "checkSubgrid_inner data incrementR (j # js) incrementC seen st =
     (let val = cells st (row data + incrementR) (column data + incrementC) in
      case rd seen val of
        Inl e \<Rightarrow> Inl e
      | Inr hit \<Rightarrow>
          if hit then Inr (seen, st\<lparr>listInvalid := (listInvalid st)[slot data := True]\<rparr>)
          else checkSubgrid_inner data incrementR js (incrementC + 1) (seen[nat val := True]) st)"

fun checkSubgrid_outer ::
  "parameters \<Rightarrow> int list \<Rightarrow> int list \<Rightarrow> int \<Rightarrow> bool list \<Rightarrow> store \<Rightarrow> fault + store" where
  "checkSubgrid_outer data js [] incrementR seen st = Inr st"
| "checkSubgrid_outer data js (i # is) incrementR seen st =
     (case checkSubgrid_inner data incrementR js 0 seen st of
        Inl e \<Rightarrow> Inl e
      | Inr (seen', st') \<Rightarrow> checkSubgrid_outer data js is (incrementR + 1) seen' st')"

definition checkSubgrid :: "parameters \<Rightarrow> store \<Rightarrow> fault + store" where
  "checkSubgrid data st =
     (if psize data < 0 then Inl NanToInt
      else
        (let subGridSize = isqrt (psize data) in
         checkSubgrid_outer data [1..subGridSize] [1..subGridSize] 0
           (replicate (nat (psize data + 1)) False) st))"

section \<open>checkPuzzle\<close>

text \<open>The start routine handed to \<^verbatim>\<open>pthread_create\<close>.\<close>

datatype routine = CheckRow | CheckCol | CheckSubgrid

fun runThread :: "routine \<times> parameters \<Rightarrow> store \<Rightarrow> fault + store" where
  "runThread (CheckRow, data) st = checkRow data st"
| "runThread (CheckCol, data) st = checkCol data st"
| "runThread (CheckSubgrid, data) st = checkSubgrid data st"

text \<open>
  The first creation loop, on the state \<^verbatim>\<open>(params so far, threadIndex)\<close>: a row thread
  and a column thread for each \<open>i\<close>.
\<close>

definition spawnRowCol ::
  "int \<Rightarrow> int \<Rightarrow> (routine \<times> parameters) list \<times> nat \<Rightarrow> (routine \<times> parameters) list \<times> nat" where
  "spawnRowCol psz i = (\<lambda>(params, threadIndex).
     (params @
        [(CheckRow, \<lparr>row = i, column = 1, psize = psz, slot = threadIndex\<rparr>),
         (CheckCol, \<lparr>row = 1, column = i, psize = psz, slot = threadIndex + 1\<rparr>)],
      threadIndex + 2))"

text \<open>
  The indices of \<^verbatim>\<open>for (x = from; x <= psize; x += subGridSize)\<close>. The loop is entered
  only under \<^verbatim>\<open>flag\<close>, which gives \<open>subGridSize > 1\<close>.
\<close>

function stride :: "int \<Rightarrow> int \<Rightarrow> int \<Rightarrow> int list" where
  "stride subGridSize psz x =
     (if x \<le> psz \<and> 0 < subGridSize then x # stride subGridSize psz (x + subGridSize) else [])"
  by pat_completeness auto
termination
  by (relation "measure (\<lambda>(subGridSize, psz, x). nat (psz + 1 - x))") auto

declare stride.simps [simp del]

definition spawnSubgrid ::
  "int \<Rightarrow> int \<Rightarrow> int \<Rightarrow> (routine \<times> parameters) list \<times> nat \<Rightarrow> (routine \<times> parameters) list \<times> nat" where
  "spawnSubgrid psz r c = (\<lambda>(params, threadIndex).
     (params @ [(CheckSubgrid, \<lparr>row = r, column = c, psize = psz, slot = threadIndex\<rparr>)],
      threadIndex + 1))"

text \<open>All of \<^verbatim>\<open>params[]\<close>, in creation order, for a size \<open>psz \<ge> 0\<close>.\<close>

definition createThreads :: "int \<Rightarrow> (routine \<times> parameters) list" where
  "createThreads psz =
     (let sqrtPsize = isqrt psz;
          flag = (sqrtPsize * sqrtPsize = psz \<and> sqrtPsize > 1);
          subGridSize = sqrtPsize;
          rowcol = fold (spawnRowCol psz) [1..psz] ([], 0)
      in fst (if flag
              then fold (\<lambda>r. fold (spawnSubgrid psz r) (stride subGridSize psz 1))
                     (stride subGridSize psz 1) rowcol
              else rowcol))"

text \<open>
  The join loop, on the state \<^verbatim>\<open>(*complete, *valid)\<close>; it reads the slots through
  \<^verbatim>\<open>params[i]\<close>.
\<close>

definition joinStep ::
  "(routine \<times> parameters) list \<Rightarrow> store \<Rightarrow> nat \<Rightarrow> bool \<times> bool \<Rightarrow> bool \<times> bool" where
  "joinStep params st i = (\<lambda>(complete, valid).
     (if listComplete st ! slot (snd (params ! i)) = False then False else complete,
      if listInvalid st ! slot (snd (params ! i)) = True then False else valid))"

text \<open>
  \<^verbatim>\<open>checkPuzzle\<close> returns \<^verbatim>\<open>(*complete, *valid)\<close> and the grid as the threads leave
  it. Each thread reads the grid and writes only the two slots of its own index, so the
  threads are run one after the other in creation order.
\<close>

definition checkPuzzle :: "int \<Rightarrow> grid \<Rightarrow> fault + (bool \<times> bool \<times> grid)" where
  "checkPuzzle psz g =
     (if psz < 0 then Inl NanToInt
      else
        (let sqrtPsize = isqrt psz;
             flag = (sqrtPsize * sqrtPsize = psz \<and> sqrtPsize > 1);
             totalThreads = psz * 2 + (if flag then psz else 0);
             params = createThreads psz;
             st0 = \<lparr>cells = g,
                    listInvalid = replicate (nat totalThreads) False,
                    listComplete = replicate (nat totalThreads) True\<rparr>
         in case forEach runThread params st0 of
              Inl e \<Rightarrow> Inl e
            | Inr st \<Rightarrow>
                (case fold (joinStep params st) [0..<nat totalThreads] (True, True) of
                   (complete, valid) \<Rightarrow> Inr (complete, valid, cells st))))"

section \<open>What main observes\<close>

text \<open>
  What \<^verbatim>\<open>main\<close> reads back from \<^verbatim>\<open>checkPuzzle\<close>, and the rows that
  \<^verbatim>\<open>printSudokuPuzzle\<close> prints.
\<close>

definition flagsOf :: "fault + (bool \<times> bool \<times> grid) \<Rightarrow> fault + (bool \<times> bool)" where
  "flagsOf res = (case res of Inl e \<Rightarrow> Inl e | Inr (complete, valid, g) \<Rightarrow> Inr (complete, valid))"

definition printSudokuPuzzle :: "int \<Rightarrow> grid \<Rightarrow> int list list" where
  "printSudokuPuzzle psz g = map (\<lambda>r. map (\<lambda>c. g r c) [1..psz]) [1..psz]"

section \<open>Notions of the specification and of the proofs\<close>

subsection \<open>The scans of the unit checks\<close>

text \<open>
  The row or column check in the words of the specification, on the values of the unit in
  scanning order and the set of values seen so far. Its result is the pair
  (incomplete found, duplicate found). A value \<open>v \<le> 0\<close> marks the unit incomplete and
  the scan continues; a value \<open>v > 0\<close> already seen marks a duplicate and ends the scan;
  any other value is recorded as seen.
\<close>

fun unit_scan :: "int set \<Rightarrow> int list \<Rightarrow> bool \<times> bool" where
  "unit_scan seen [] = (False, False)"
| "unit_scan seen (v # vs) =
     (if v \<le> 0 then (True, snd (unit_scan seen vs))
      else if v \<in> seen then (False, True)
      else unit_scan (insert v seen) vs)"

text \<open>
  Writing a check result to the slot \<open>k\<close> of the shared lists: a duplicate sets
  \<^verbatim>\<open>listInvalid[k]\<close>, an incomplete unit clears \<^verbatim>\<open>listComplete[k]\<close>, and nothing
  else is written.
\<close>

definition flagInvalid :: "nat \<Rightarrow> store \<Rightarrow> store" where
  "flagInvalid k st = st\<lparr>listInvalid := (listInvalid st)[k := True]\<rparr>"

definition flagIncomplete :: "nat \<Rightarrow> store \<Rightarrow> store" where
  "flagIncomplete k st = st\<lparr>listComplete := (listComplete st)[k := False]\<rparr>"

definition report :: "nat \<Rightarrow> bool \<times> bool \<Rightarrow> store \<Rightarrow> store" where
  "report k res st =
     (let st' = (if snd res then flagInvalid k st else st)
      in if fst res then flagIncomplete k st' else st')"

text \<open>
  The array \<^verbatim>\<open>seen\<close> of length \<open>n + 1\<close> holds the set \<open>S\<close> at the indices
  \<open>lo..n\<close>.
\<close>

definition tracks :: "int \<Rightarrow> int \<Rightarrow> bool list \<Rightarrow> int set \<Rightarrow> bool" where
  "tracks lo n seen S \<longleftrightarrow>
     length seen = nat (n + 1) \<and> (\<forall>v. lo \<le> v \<and> v \<le> n \<longrightarrow> seen ! nat v = (v \<in> S))"

text \<open>
  The subgrid check on the values of the block, row by row. No value is special: a value
  already seen is a hit and ends the scan of its row only; the scan goes on with the next
  row of the block and the same set of seen values.
\<close>

fun block_row :: "int set \<Rightarrow> int list \<Rightarrow> int set \<times> bool" where
  "block_row seen [] = (seen, False)"
| "block_row seen (v # vs) =
     (if v \<in> seen then (seen, True) else block_row (insert v seen) vs)"

fun block_scan :: "int set \<Rightarrow> int list list \<Rightarrow> bool" where
  "block_scan seen [] = False"
| "block_scan seen (vs # vss) =
     (case block_row seen vs of (seen', hit) \<Rightarrow> hit \<or> block_scan seen' vss)"

text \<open>The \<open>n\<close> by \<open>n\<close> block of cells whose top left cell is at row \<open>r\<close>, column \<open>c\<close>.\<close>

definition blockRow :: "grid \<Rightarrow> int \<Rightarrow> int \<Rightarrow> nat \<Rightarrow> int list" where
  "blockRow g r c n = map (\<lambda>k. g r (c + int k)) [0..<n]"

definition block :: "grid \<Rightarrow> int \<Rightarrow> int \<Rightarrow> nat \<Rightarrow> int list list" where
  "block g r c n = map (\<lambda>k. blockRow g (r + int k) c n) [0..<n]"

subsection \<open>Threads and their result slots\<close>

text \<open>
  A thread without its slot: the routine, and the row, the column and the size of its
  parameters. The result of its check, (incomplete found, duplicate found), depends on these
  and the grid only.
\<close>

definition shape :: "routine \<times> parameters \<Rightarrow> routine \<times> int \<times> int \<times> int" where
  "shape t = (fst t, row (snd t), column (snd t), psize (snd t))"

fun verdict :: "grid \<Rightarrow> routine \<times> int \<times> int \<times> int \<Rightarrow> bool \<times> bool" where
  "verdict g (CheckRow, r, c, n) = unit_scan {} (map (g r) [1..n])"
| "verdict g (CheckCol, r, c, n) = unit_scan {} (map (\<lambda>r. g r c) [1..n])"
| "verdict g (CheckSubgrid, r, c, n) = (False, block_scan {} (block g r c (nat (isqrt n))))"

text \<open>
  The values that the check of a unit looks up in \<^verbatim>\<open>seen\<close> are indices of that array:
  the row and column checks skip values \<open>\<le> 0\<close>, the subgrid check skips nothing.
\<close>

fun indexable :: "grid \<Rightarrow> routine \<times> int \<times> int \<times> int \<Rightarrow> bool" where
  "indexable g (CheckRow, r, c, n) \<longleftrightarrow> 0 \<le> n \<and> (\<forall>col \<in> {1..n}. g r col \<le> n)"
| "indexable g (CheckCol, r, c, n) \<longleftrightarrow> 0 \<le> n \<and> (\<forall>r \<in> {1..n}. g r c \<le> n)"
| "indexable g (CheckSubgrid, r, c, n) \<longleftrightarrow>
     0 \<le> n \<and> (\<forall>vs \<in> set (block g r c (nat (isqrt n))). \<forall>v \<in> set vs. 0 \<le> v \<and> v \<le> n)"

subsection \<open>The threads that checkPuzzle creates\<close>

text \<open>The state of the creation loops: thread \<open>j\<close> owns slot \<open>j\<close>.\<close>

definition slotted :: "(routine \<times> parameters) list \<times> nat \<Rightarrow> bool" where
  "slotted s \<longleftrightarrow> snd s = length (fst s) \<and> (\<forall>j < length (fst s). slot (snd (fst s ! j)) = j)"

text \<open>
  The units that \<^verbatim>\<open>checkPuzzle\<close> checks on a grid of size \<open>psz\<close>, in creation order:
  each row and each column, and the subgrids when the size is a square above 1.
\<close>

definition unitsOf :: "int \<Rightarrow> (routine \<times> int \<times> int \<times> int) list" where
  "unitsOf psz =
     concat (map (\<lambda>i. [(CheckRow, i, 1, psz), (CheckCol, 1, i, psz)]) [1..psz]) @
     (if isqrt psz * isqrt psz = psz \<and> isqrt psz > 1
      then concat (map (\<lambda>r. map (\<lambda>c. (CheckSubgrid, r, c, psz)) (stride (isqrt psz) psz 1))
                     (stride (isqrt psz) psz 1))
      else [])"

subsection \<open>The flags that checkPuzzle returns\<close>

text \<open>The cells of a grid of size \<open>n\<close> are empty (0) or hold a digit of \<open>1..n\<close>.\<close>

definition digits :: "int \<Rightarrow> grid \<Rightarrow> bool" where
  "digits n g \<longleftrightarrow> (\<forall>r \<in> {1..n}. \<forall>c \<in> {1..n}. 0 \<le> g r c \<and> g r c \<le> n)"

subsection \<open>Solved grids\<close>

text \<open>
  The rules of Sudoku on a grid of size \<open>n\<close>: every cell holds a digit of \<open>1..n\<close>, and no
  row, no column and no subgrid (of side the integer square root of \<open>n\<close>, counted from 0
  both ways) holds a value twice.
\<close>

definition filled :: "int \<Rightarrow> grid \<Rightarrow> bool" where
  "filled n g \<longleftrightarrow> (\<forall>r \<in> {1..n}. \<forall>c \<in> {1..n}. 1 \<le> g r c \<and> g r c \<le> n)"

definition rowCells :: "int \<Rightarrow> grid \<Rightarrow> int \<Rightarrow> int list" where
  "rowCells n g r = map (g r) [1..n]"

definition colCells :: "int \<Rightarrow> grid \<Rightarrow> int \<Rightarrow> int list" where
  "colCells n g c = map (\<lambda>r. g r c) [1..n]"

definition boxCells :: "int \<Rightarrow> grid \<Rightarrow> int \<Rightarrow> int \<Rightarrow> int list" where
  "boxCells s g br bc =
     concat (map (\<lambda>r. map (g r) [bc * s + 1..bc * s + s]) [br * s + 1..br * s + s])"

definition sudokuRules :: "int \<Rightarrow> grid \<Rightarrow> bool" where
  "sudokuRules n g \<longleftrightarrow>
     (\<forall>r \<in> {1..n}. distinct (rowCells n g r)) \<and>
     (\<forall>c \<in> {1..n}. distinct (colCells n g c)) \<and>
     (\<forall>br \<in> {0..isqrt n - 1}. \<forall>bc \<in> {0..isqrt n - 1}. distinct (boxCells (isqrt n) g br bc))"

text \<open>A solved 4 by 4 puzzle.\<close>

definition solved4 :: grid where
  "solved4 = readSudokuPuzzle [[1, 2, 3, 4], [3, 4, 1, 2], [2, 1, 4, 3], [4, 3, 2, 1]]"

subsection \<open>The fill pass\<close>

text \<open>
  The filler in the words of the specification: the values in the row and in the column of
  a cell, the candidates \<open>1..n\<close> that are none of them, the step on one cell and the
  cells in row-major order.
\<close>

definition peers :: "int \<Rightarrow> grid \<Rightarrow> int \<Rightarrow> int \<Rightarrow> int list" where
  "peers n g r c = map (g r) [1..n] @ map (\<lambda>k. g k c) [1..n]"

definition candidates :: "int \<Rightarrow> grid \<Rightarrow> int \<Rightarrow> int \<Rightarrow> int list" where
  "candidates n g r c = filter (\<lambda>d. d \<notin> set (peers n g r c)) [1..n]"

definition fillCell :: "int \<Rightarrow> int \<times> int \<Rightarrow> grid \<Rightarrow> grid" where
  "fillCell n = (\<lambda>(r, c) g.
     if g r c = 0
     then (case candidates n g r c of [d] \<Rightarrow> g(r := (g r)(c := d)) | _ \<Rightarrow> g)
     else g)"

definition rowMajor :: "int \<Rightarrow> (int \<times> int) list" where
  "rowMajor n = concat (map (\<lambda>r. map (\<lambda>c. (r, c)) [1..n]) [1..n])"

text \<open>No cell of a grid of size \<open>n\<close> exceeds \<open>n\<close>: every value is an index of \<^verbatim>\<open>possible\<close>.\<close>

definition bounded :: "int \<Rightarrow> grid \<Rightarrow> bool" where
  "bounded n g \<longleftrightarrow> (\<forall>r \<in> {1..n}. \<forall>c \<in> {1..n}. g r c \<le> n)"

subsection \<open>Frame of the checks, sizes, and two failing inputs\<close>

text \<open>A 4 by 4 puzzle with two empty cells in its first subgrid and no digit repeated.\<close>

definition twoBlanks4 :: grid where
  "twoBlanks4 = readSudokuPuzzle [[0, 0, 3, 4], [3, 4, 1, 2], [2, 1, 4, 3], [4, 3, 2, 1]]"

text \<open>A grid is complete when every cell holds a nonzero value.\<close>

definition completeGrid :: "int \<Rightarrow> grid \<Rightarrow> bool" where
  "completeGrid n g \<longleftrightarrow> (\<forall>r \<in> {1..n}. \<forall>c \<in> {1..n}. g r c \<noteq> 0)"

text \<open>
  A 4 by 4 grid whose only empty cell, at row 4 and column 4, comes after a repeated digit
  both in its row and in its column.
\<close>

definition hidden4 :: grid where
  "hidden4 = readSudokuPuzzle [[1, 1, 3, 2], [1, 1, 3, 2], [1, 1, 3, 2], [1, 1, 3, 0]]"

text \<open>A nonzero value occurs twice among the values of a unit.\<close>

definition nonzeroRepeated :: "int list \<Rightarrow> bool" where
  "nonzeroRepeated vs \<longleftrightarrow> \<not> distinct (filter (\<lambda>v. v \<noteq> 0) vs)"

subsection \<open>The fill pass in place\<close>

text \<open>
  A 3 by 3 grid in which the cell at row 1, column 2 has two candidates until the cell to its
  left is filled.
\<close>

definition chain3 :: grid where
  "chain3 = readSudokuPuzzle [[0, 0, 1], [2, 0, 0], [0, 0, 0]]"

text \<open>
  A 3 by 3 grid in which the cell at row 1, column 2 has the single candidate 3 until the
  cell to its left takes the 3.
\<close>

definition blocked3 :: grid where
  "blocked3 = readSudokuPuzzle [[0, 0, 1], [2, 0, 0], [0, 2, 0]]"

text \<open>
  The grid as it stands when \<^verbatim>\<open>solveMissingNumber\<close> visits the cell at row \<open>r\<close>, column
  \<open>c\<close>: the cells before it in row-major order have been processed.
\<close>

definition asVisited :: "int \<Rightarrow> grid \<Rightarrow> int \<Rightarrow> int \<Rightarrow> grid" where
  "asVisited n g r c = fold (fillCell n) (takeWhile (\<lambda>p. p \<noteq> (r, c)) (rowMajor n)) g"

section \<open>Proofs\<close>

subsection \<open>The integer square root\<close>

text \<open>On sizes \<open>n \<ge> 0\<close>, \<open>isqrt\<close> is the square root rounded down.\<close>

lemma isqrt_floor:
  assumes "0 \<le> n"
  shows "0 \<le> isqrt n \<and> isqrt n * isqrt n \<le> n \<and> n < (isqrt n + 1) * (isqrt n + 1)"
proof -
  let ?P = "\<lambda>k. k * k \<le> n"
  let ?tw = "takeWhile ?P [1..n]"
  define r where "r = length ?tw"
  have r: "isqrt n = int r" by (simp add: isqrt_def r_def)
  have le: "r \<le> nat n"
    using length_takeWhile_le [of ?P "[1..n]"] assms by (simp add: r_def)
  have low: "int r * int r \<le> n"
  proof (cases r)
    case 0
    with assms show ?thesis by simp
  next
    case (Suc k)
    then have k: "k < length ?tw" by (simp add: r_def)
    then have "?tw ! k \<in> set ?tw" by simp
    then have "?P (?tw ! k)" by (blast dest: set_takeWhileD)
    moreover have "?tw ! k = [1..n] ! k" using k by (rule takeWhile_nth)
    moreover have "[1..n] ! k = 1 + int k" using le Suc by (intro nth_upto) simp
    ultimately show ?thesis using Suc by (simp add: algebra_simps)
  qed
  have up: "n < (int r + 1) * (int r + 1)"
  proof (cases "r < nat n")
    case True
    then have "r < length [1..n]" by simp
    then have "\<not> ?P ([1..n] ! r)"
      unfolding r_def by (rule nth_length_takeWhile)
    moreover have "[1..n] ! r = 1 + int r" using True by (intro nth_upto) simp
    ultimately show ?thesis by (simp add: algebra_simps)
  next
    case False
    with le assms have "int r = n" by simp
    moreover have "n < (n + 1) * (n + 1)"
    proof -
      have "n + 1 \<le> (n + 1) * (n + 1)"
        using mult_left_mono [of 1 "n + 1" "n + 1"] assms by simp
      then show ?thesis by linarith
    qed
    ultimately show ?thesis by simp
  qed
  from low up show ?thesis by (simp add: r)
qed

subsection \<open>The scans of the unit checks\<close>

lemma tracks_replicate: "0 \<le> lo \<Longrightarrow> tracks lo n (replicate (nat (n + 1)) False) {}"
  by (auto simp: tracks_def)

lemma tracks_rd:
  "tracks lo n seen S \<Longrightarrow> 0 \<le> lo \<Longrightarrow> lo \<le> v \<Longrightarrow> v \<le> n \<Longrightarrow> rd seen v = Inr (v \<in> S)"
  by (auto simp: tracks_def rd_def)

lemma tracks_insert:
  assumes "tracks lo n seen S" "0 \<le> lo" "lo \<le> v" "v \<le> n"
  shows "tracks lo n (seen[nat v := True]) (insert v S)"
proof -
  have "seen[nat v := True] ! nat w = (w \<in> insert v S)" if "lo \<le> w" "w \<le> n" for w
  proof (cases "w = v")
    case True
    with assms show ?thesis by (simp add: tracks_def)
  next
    case False
    with assms that have "nat w \<noteq> nat v" by auto
    with assms that False show ?thesis by (simp add: tracks_def)
  qed
  with assms show ?thesis by (simp add: tracks_def)
qed

lemma checkRow_loop_scan:
  assumes "tracks 1 n seen S" and "\<forall>col \<in> set cols. cells st (row data) col \<le> n"
  shows "checkRow_loop data cols seen rowComplete st =
           Inr (rowComplete \<and> \<not> fst (unit_scan S (map (cells st (row data)) cols)),
                if snd (unit_scan S (map (cells st (row data)) cols))
                then flagInvalid (slot data) st else st)"
  using assms
proof (induction cols arbitrary: seen S rowComplete)
  case Nil
  then show ?case by simp
next
  case (Cons col cols)
  let ?v = "cells st (row data) col"
  show ?case
  proof (cases "?v \<le> 0")
    case True
    with Cons show ?thesis by simp
  next
    case False
    then have pos: "1 \<le> ?v" by simp
    from Cons.prems have le: "?v \<le> n" by simp
    have r: "rd seen ?v = Inr (?v \<in> S)"
      using tracks_rd [OF Cons.prems(1) _ pos le] by simp
    show ?thesis
    proof (cases "?v \<in> S")
      case True
      with False r show ?thesis by (simp add: flagInvalid_def)
    next
      case notin: False
      have t: "tracks 1 n (seen[nat ?v := True]) (insert ?v S)"
        using tracks_insert [OF Cons.prems(1) _ pos le] by simp
      from Cons.prems have rest: "\<forall>col \<in> set cols. cells st (row data) col \<le> n" by simp
      show ?thesis
        using False notin r Cons.IH [OF t rest] by simp
    qed
  qed
qed

lemma checkRow_report:
  assumes "0 \<le> psize data" and "\<forall>col \<in> {1..psize data}. cells st (row data) col \<le> psize data"
  shows "checkRow data st =
           Inr (report (slot data) (unit_scan {} (map (cells st (row data)) [1..psize data])) st)"
proof -
  have "\<forall>col \<in> set [1..psize data]. cells st (row data) col \<le> psize data"
    using assms(2) by simp
  have "tracks 1 (psize data) (replicate (nat (psize data + 1)) False) {}"
    by (rule tracks_replicate) simp
  from checkRow_loop_scan [OF this \<open>\<forall>col \<in> set [1..psize data]. cells st (row data) col \<le> psize data\<close>, of True]
  show ?thesis using assms(1)
    by (simp add: checkRow_def report_def flagInvalid_def flagIncomplete_def Let_def)
qed

lemma checkCol_loop_scan:
  assumes "tracks 1 n seen S" and "\<forall>r \<in> set rs. cells st r (column data) \<le> n"
  shows "checkCol_loop data rs seen rowComplete st =
           Inr (rowComplete \<and> \<not> fst (unit_scan S (map (\<lambda>r. cells st r (column data)) rs)),
                if snd (unit_scan S (map (\<lambda>r. cells st r (column data)) rs))
                then flagInvalid (slot data) st else st)"
  using assms
proof (induction rs arbitrary: seen S rowComplete)
  case Nil
  then show ?case by simp
next
  case (Cons r rs)
  let ?v = "cells st r (column data)"
  show ?case
  proof (cases "?v \<le> 0")
    case True
    with Cons show ?thesis by simp
  next
    case False
    then have pos: "1 \<le> ?v" by simp
    from Cons.prems have le: "?v \<le> n" by simp
    have r: "rd seen ?v = Inr (?v \<in> S)"
      using tracks_rd [OF Cons.prems(1) _ pos le] by simp
    show ?thesis
    proof (cases "?v \<in> S")
      case True
      with False r show ?thesis by (simp add: flagInvalid_def)
    next
      case notin: False
      have t: "tracks 1 n (seen[nat ?v := True]) (insert ?v S)"
        using tracks_insert [OF Cons.prems(1) _ pos le] by simp
      from Cons.prems have rest: "\<forall>r \<in> set rs. cells st r (column data) \<le> n" by simp
      show ?thesis
        using False notin r Cons.IH [OF t rest] by simp
    qed
  qed
qed

lemma checkCol_report:
  assumes "0 \<le> psize data" and "\<forall>r \<in> {1..psize data}. cells st r (column data) \<le> psize data"
  shows "checkCol data st =
           Inr (report (slot data)
                  (unit_scan {} (map (\<lambda>r. cells st r (column data)) [1..psize data])) st)"
proof -
  have inb: "\<forall>r \<in> set [1..psize data]. cells st r (column data) \<le> psize data"
    using assms(2) by simp
  have "tracks 1 (psize data) (replicate (nat (psize data + 1)) False) {}"
    by (rule tracks_replicate) simp
  from checkCol_loop_scan [OF this inb, of True]
  show ?thesis using assms(1)
    by (simp add: checkCol_def report_def flagInvalid_def flagIncomplete_def Let_def)
qed

lemma blockRow_Suc: "blockRow g r c (Suc n) = g r c # blockRow g r (c + 1) n"
proof -
  have "[0..<Suc n] = 0 # map Suc [0..<n]"
    by (simp add: upt_conv_Cons map_Suc_upt del: upt_Suc)
  then show ?thesis
    by (simp add: blockRow_def comp_def add.assoc del: upt_Suc)
qed

lemma cells_flagInvalid [simp]: "cells (flagInvalid k st) = cells st"
  by (simp add: flagInvalid_def)

lemma flagInvalid_idem [simp]: "flagInvalid k (flagInvalid k st) = flagInvalid k st"
  by (simp add: flagInvalid_def)

lemma checkSubgrid_inner_scan:
  assumes "tracks 0 n seen S"
    and "\<forall>v \<in> set (blockRow (cells st) (row data + incrementR) (column data + incrementC) (length js)).
           0 \<le> v \<and> v \<le> n"
  shows "\<exists>seen'. checkSubgrid_inner data incrementR js incrementC seen st =
           Inr (seen',
                if snd (block_row S (blockRow (cells st) (row data + incrementR) (column data + incrementC) (length js)))
                then flagInvalid (slot data) st else st)
         \<and> tracks 0 n seen'
             (fst (block_row S (blockRow (cells st) (row data + incrementR) (column data + incrementC) (length js))))"
  using assms
proof (induction js arbitrary: seen S incrementC)
  case Nil
  then show ?case by (simp add: blockRow_def)
next
  case (Cons j js)
  let ?v = "cells st (row data + incrementR) (column data + incrementC)"
  from Cons.prems(2) have rng: "0 \<le> ?v" "?v \<le> n"
    and rest: "\<forall>v \<in> set (blockRow (cells st) (row data + incrementR) (column data + (incrementC + 1)) (length js)).
           0 \<le> v \<and> v \<le> n"
    by (simp_all add: blockRow_Suc add.assoc)
  have r: "rd seen ?v = Inr (?v \<in> S)"
    using tracks_rd [OF Cons.prems(1) _ rng] by simp
  show ?case
  proof (cases "?v \<in> S")
    case True
    with r Cons.prems(1) show ?thesis
      by (simp add: blockRow_Suc flagInvalid_def)
  next
    case False
    have t: "tracks 0 n (seen[nat ?v := True]) (insert ?v S)"
      using tracks_insert [OF Cons.prems(1) _ rng] by simp
    from Cons.IH [OF t rest] False r show ?thesis
      by (simp add: blockRow_Suc add.assoc)
  qed
qed

lemma block_Suc: "block g r c (Suc n) = blockRow g r c (Suc n) # map (\<lambda>k. blockRow g (r + 1 + int k) c (Suc n)) [0..<n]"
proof -
  have "[0..<Suc n] = 0 # map Suc [0..<n]"
    by (simp add: upt_conv_Cons map_Suc_upt del: upt_Suc)
  then show ?thesis
    by (simp add: block_def comp_def add.assoc del: upt_Suc)
qed

lemma checkSubgrid_outer_scan:
  assumes "tracks 0 n seen S"
    and "\<forall>k < length is. \<forall>v \<in> set (blockRow (cells st) (row data + incrementR + int k) (column data) (length js)).
           0 \<le> v \<and> v \<le> n"
  shows "checkSubgrid_outer data js is incrementR seen st =
           Inr (if block_scan S (map (\<lambda>k. blockRow (cells st) (row data + incrementR + int k) (column data) (length js)) [0..<length is])
                then flagInvalid (slot data) st else st)"
  using assms
proof (induction "is" arbitrary: seen S incrementR st)
  case Nil
  then show ?case by simp
next
  case (Cons i "is")
  let ?row = "blockRow (cells st) (row data + incrementR) (column data + 0) (length js)"
  have first: "\<forall>v \<in> set ?row. 0 \<le> v \<and> v \<le> n"
    using Cons.prems(2) [rule_format, of 0] by simp
  from checkSubgrid_inner_scan [OF Cons.prems(1) first]
  obtain seen' where inner: "checkSubgrid_inner data incrementR js 0 seen st =
        Inr (seen', if snd (block_row S ?row) then flagInvalid (slot data) st else st)"
    and t: "tracks 0 n seen' (fst (block_row S ?row))" by blast
  let ?st' = "if snd (block_row S ?row) then flagInvalid (slot data) st else st"
  have c: "cells ?st' = cells st" by simp
  have rest: "\<forall>k < length is. \<forall>v \<in> set (blockRow (cells ?st') (row data + (incrementR + 1) + int k) (column data) (length js)).
           0 \<le> v \<and> v \<le> n"
  proof (intro allI impI)
    fix k assume "k < length is"
    then have "Suc k < length (i # is)" by simp
    from Cons.prems(2) [rule_format, OF this]
    show "\<forall>v \<in> set (blockRow (cells ?st') (row data + (incrementR + 1) + int k) (column data) (length js)).
           0 \<le> v \<and> v \<le> n"
      unfolding c by (simp add: algebra_simps)
  qed
  have up: "[0..<length (i # is)] = 0 # map Suc [0..<length is]"
    by (simp add: upt_conv_Cons map_Suc_upt del: upt_Suc)
  have rows: "map (\<lambda>k. blockRow (cells st) (row data + incrementR + int k) (column data) (length js))
                [0..<length (i # is)]
            = ?row # map (\<lambda>k. blockRow (cells st) (row data + (incrementR + 1) + int k) (column data) (length js))
                [0..<length is]"
    unfolding up by (simp add: comp_def algebra_simps)
  have step: "checkSubgrid_outer data js (i # is) incrementR seen st
            = checkSubgrid_outer data js is (incrementR + 1) seen' ?st'"
    using inner by simp
  show ?case
    unfolding step rows Cons.IH [OF t rest] c
    by (cases "block_row S ?row") auto
qed

subsection \<open>What the scans detect\<close>

lemma checkSubgrid_report:
  assumes "0 \<le> psize data"
    and "\<forall>vs \<in> set (block (cells st) (row data) (column data) (nat (isqrt (psize data)))).
           \<forall>v \<in> set vs. 0 \<le> v \<and> v \<le> psize data"
  shows "checkSubgrid data st =
           Inr (report (slot data)
                  (False, block_scan {} (block (cells st) (row data) (column data) (nat (isqrt (psize data))))) st)"
proof -
  let ?s = "isqrt (psize data)"
  have len: "length [1..?s] = nat ?s" by simp
  have t: "tracks 0 (psize data) (replicate (nat (psize data + 1)) False) {}"
    by (rule tracks_replicate) simp
  have rng: "\<forall>k < length [1..?s].
      \<forall>v \<in> set (blockRow (cells st) (row data + 0 + int k) (column data) (length [1..?s])).
        0 \<le> v \<and> v \<le> psize data"
    using assms(2) unfolding len by (simp add: block_def)
  from checkSubgrid_outer_scan [OF t rng] assms(1)
  show ?thesis
    unfolding len by (simp add: checkSubgrid_def report_def block_def)
qed

lemma block_row_hit:
  "snd (block_row S vs) \<longleftrightarrow> \<not> (distinct vs \<and> set vs \<inter> S = {})"
  by (induction vs arbitrary: S) auto

lemma block_row_seen:
  "\<not> snd (block_row S vs) \<Longrightarrow> fst (block_row S vs) = S \<union> set vs"
  by (induction vs arbitrary: S) (auto split: if_splits)

lemma block_scan_iff:
  "block_scan S vss \<longleftrightarrow> \<not> (distinct (concat vss) \<and> set (concat vss) \<inter> S = {})"
proof (induction vss arbitrary: S)
  case Nil
  then show ?case by simp
next
  case (Cons vs vss)
  show ?case
  proof (cases "snd (block_row S vs)")
    case True
    then have "\<not> (distinct vs \<and> set vs \<inter> S = {})" by (simp add: block_row_hit)
    with True show ?thesis by (auto split: prod.splits)
  next
    case False
    then have d: "distinct vs" "set vs \<inter> S = {}" by (simp_all add: block_row_hit)
    from False have s: "fst (block_row S vs) = S \<union> set vs" by (rule block_row_seen)
    have "block_scan S (vs # vss) = block_scan (S \<union> set vs) vss"
      using False s by (cases "block_row S vs") auto
    also have "\<dots> \<longleftrightarrow> \<not> (distinct (concat vss) \<and> set (concat vss) \<inter> (S \<union> set vs) = {})"
      by (rule Cons.IH)
    also have "\<dots> \<longleftrightarrow> \<not> (distinct (concat (vs # vss)) \<and> set (concat (vs # vss)) \<inter> S = {})"
      using d by auto
    finally show ?thesis .
  qed
qed

lemma unit_scan_dup:
  "snd (unit_scan S vs) \<longleftrightarrow>
     \<not> (distinct (filter (\<lambda>v. 0 < v) vs) \<and> set (filter (\<lambda>v. 0 < v) vs) \<inter> S = {})"
  by (induction vs arbitrary: S) auto

lemma unit_scan_incomplete_imp:
  "fst (unit_scan S vs) \<Longrightarrow> \<exists>v \<in> set vs. v \<le> 0"
  by (induction vs arbitrary: S) (auto split: if_splits)

lemma unit_scan_incomplete_iff:
  "\<not> snd (unit_scan S vs) \<Longrightarrow> fst (unit_scan S vs) \<longleftrightarrow> (\<exists>v \<in> set vs. v \<le> 0)"
  by (induction vs arbitrary: S) (auto split: if_splits)

subsection \<open>Threads and their result slots\<close>

lemma cells_report [simp]: "cells (report k res st) = cells st"
  by (simp add: report_def flagInvalid_def flagIncomplete_def Let_def)

lemma runThread_report:
  assumes "indexable (cells st) (shape t)"
  shows "runThread t st = Inr (report (slot (snd t)) (verdict (cells st) (shape t)) st)"
proof (cases t)
  case (Pair routine data)
  with assms show ?thesis
    by (cases routine) (simp_all add: shape_def checkRow_report checkCol_report checkSubgrid_report)
qed

lemma forEach_runThread:
  assumes "\<forall>t \<in> set ts. indexable (cells st) (shape t)"
  shows "forEach runThread ts st =
           Inr (fold (\<lambda>t. report (slot (snd t)) (verdict (cells st) (shape t))) ts st)"
  using assms
proof (induction ts arbitrary: st)
  case Nil
  then show ?case by simp
next
  case (Cons t ts)
  let ?st = "report (slot (snd t)) (verdict (cells st) (shape t)) st"
  from Cons.prems have "runThread t st = Inr ?st"
    by (simp add: runThread_report)
  moreover from Cons.prems have "\<forall>t \<in> set ts. indexable (cells ?st) (shape t)"
    by simp
  from Cons.IH [OF this] have "forEach runThread ts ?st =
      Inr (fold (\<lambda>t. report (slot (snd t)) (verdict (cells st) (shape t))) ts ?st)"
    by simp
  ultimately show ?case by simp
qed

lemma fold_report_cells [simp]:
  "cells (fold (\<lambda>t. report (slot (snd t)) (verdict g (shape t))) ts st) = cells st"
  by (induction ts arbitrary: st) simp_all

lemma listComplete_report:
  "listComplete (report k res st) = (if fst res then (listComplete st)[k := False] else listComplete st)"
  by (simp add: report_def flagInvalid_def flagIncomplete_def Let_def)

lemma listInvalid_report:
  "listInvalid (report k res st) = (if snd res then (listInvalid st)[k := True] else listInvalid st)"
  by (simp add: report_def flagInvalid_def flagIncomplete_def Let_def)

lemma fold_report_length:
  "length (listComplete (fold (\<lambda>t. report (slot (snd t)) (verdict g (shape t))) ts st)) = length (listComplete st)
   \<and> length (listInvalid (fold (\<lambda>t. report (slot (snd t)) (verdict g (shape t))) ts st)) = length (listInvalid st)"
  by (induction ts arbitrary: st) (simp_all add: listComplete_report listInvalid_report)

lemma fold_report_complete:
  assumes "k < length (listComplete st)"
  shows "listComplete (fold (\<lambda>t. report (slot (snd t)) (verdict g (shape t))) ts st) ! k \<longleftrightarrow>
           listComplete st ! k \<and> \<not> (\<exists>t \<in> set ts. slot (snd t) = k \<and> fst (verdict g (shape t)))"
  using assms
proof (induction ts arbitrary: st)
  case Nil
  then show ?case by simp
next
  case (Cons t ts)
  let ?st = "report (slot (snd t)) (verdict g (shape t)) st"
  have len: "k < length (listComplete ?st)"
    using Cons.prems by (simp add: listComplete_report)
  have "listComplete ?st ! k \<longleftrightarrow> listComplete st ! k \<and> \<not> (slot (snd t) = k \<and> fst (verdict g (shape t)))"
    using Cons.prems by (cases "slot (snd t) = k") (simp_all add: listComplete_report)
  with Cons.IH [OF len] show ?case by auto
qed

lemma fold_report_invalid:
  assumes "k < length (listInvalid st)"
  shows "listInvalid (fold (\<lambda>t. report (slot (snd t)) (verdict g (shape t))) ts st) ! k \<longleftrightarrow>
           listInvalid st ! k \<or> (\<exists>t \<in> set ts. slot (snd t) = k \<and> snd (verdict g (shape t)))"
  using assms
proof (induction ts arbitrary: st)
  case Nil
  then show ?case by simp
next
  case (Cons t ts)
  let ?st = "report (slot (snd t)) (verdict g (shape t)) st"
  have len: "k < length (listInvalid ?st)"
    using Cons.prems by (simp add: listInvalid_report)
  have "listInvalid ?st ! k \<longleftrightarrow> listInvalid st ! k \<or> (slot (snd t) = k \<and> snd (verdict g (shape t)))"
    using Cons.prems by (cases "slot (snd t) = k") (simp_all add: listInvalid_report)
  with Cons.IH [OF len] show ?case by auto
qed

lemma fold_joinStep:
  "fold (joinStep params st) is (complete, valid) =
     (complete \<and> (\<forall>i \<in> set is. listComplete st ! slot (snd (params ! i))),
      valid \<and> (\<forall>i \<in> set is. \<not> listInvalid st ! slot (snd (params ! i))))"
  by (induction "is" arbitrary: complete valid) (auto simp: joinStep_def)

subsection \<open>The threads that checkPuzzle creates\<close>

lemma slotted_spawnRowCol: "slotted s \<Longrightarrow> slotted (spawnRowCol psz i s)"
  by (cases s) (auto simp: slotted_def spawnRowCol_def nth_append less_Suc_eq)

lemma slotted_spawnSubgrid: "slotted s \<Longrightarrow> slotted (spawnSubgrid psz r c s)"
  by (cases s) (auto simp: slotted_def spawnSubgrid_def nth_append less_Suc_eq)

lemma slotted_fold_rowcol: "slotted s \<Longrightarrow> slotted (fold (spawnRowCol psz) is s)"
  by (induction "is" arbitrary: s) (simp_all add: slotted_spawnRowCol)

lemma slotted_fold_sub: "slotted s \<Longrightarrow> slotted (fold (spawnSubgrid psz r) cs s)"
  by (induction cs arbitrary: s) (simp_all add: slotted_spawnSubgrid)

lemma slotted_fold_sub2:
  "slotted s \<Longrightarrow> slotted (fold (\<lambda>r. fold (spawnSubgrid psz r) cs) rs s)"
  by (induction rs arbitrary: s) (simp_all add: slotted_fold_sub)

lemma shape_fold_rowcol:
  "map shape (fst (fold (spawnRowCol psz) is s)) =
     map shape (fst s) @ concat (map (\<lambda>i. [(CheckRow, i, 1, psz), (CheckCol, 1, i, psz)]) is)"
  by (induction "is" arbitrary: s) (auto simp: spawnRowCol_def shape_def split: prod.splits)

lemma shape_fold_sub:
  "map shape (fst (fold (spawnSubgrid psz r) cs s)) =
     map shape (fst s) @ map (\<lambda>c. (CheckSubgrid, r, c, psz)) cs"
  by (induction cs arbitrary: s) (auto simp: spawnSubgrid_def shape_def split: prod.splits)

lemma shape_fold_sub2:
  "map shape (fst (fold (\<lambda>r. fold (spawnSubgrid psz r) cs) rs s)) =
     map shape (fst s) @ concat (map (\<lambda>r. map (\<lambda>c. (CheckSubgrid, r, c, psz)) cs) rs)"
  by (induction rs arbitrary: s) (simp_all add: shape_fold_sub)

lemma stride_squares:
  "0 < s \<Longrightarrow> 0 \<le> k \<Longrightarrow> stride s (s * s) (1 + k * s) = map (\<lambda>j. 1 + j * s) [k..s - 1]"
proof (induction "nat (s - k)" arbitrary: k)
  case 0
  then have "s \<le> k" by simp
  with \<open>0 < s\<close> have "s * s \<le> k * s" by (simp add: mult_right_mono)
  with \<open>s \<le> k\<close> show ?case by (subst stride.simps) (simp add: upto.simps)
next
  case (Suc n)
  then have lt: "k \<le> s - 1" by linarith
  with \<open>0 < s\<close> have "k * s \<le> (s - 1) * s" by (simp add: mult_right_mono)
  with \<open>0 < s\<close> have le: "1 + k * s \<le> s * s" by (simp add: algebra_simps)
  have n: "n = nat (s - (k + 1))" using Suc.hyps(2) by linarith
  have "stride s (s * s) (1 + (k + 1) * s) = map (\<lambda>j. 1 + j * s) [k + 1..s - 1]"
    using Suc.hyps(1) [OF n \<open>0 < s\<close>] \<open>0 \<le> k\<close> by simp
  moreover have "1 + (k + 1) * s = 1 + k * s + s" by (simp add: algebra_simps)
  moreover have "[k..s - 1] = k # [k + 1..s - 1]" using lt by (simp add: upto.simps)
  ultimately show ?case using le \<open>0 < s\<close> by (subst stride.simps) simp
qed

lemma stride_anchors:
  "1 < s \<Longrightarrow> stride s (s * s) 1 = map (\<lambda>j. 1 + j * s) [0..s - 1]"
  using stride_squares [of s 0] by simp

lemma slotted_Nil: "slotted ([], 0)"
  by (simp add: slotted_def)

lemma createThreads_shape: "map shape (createThreads psz) = unitsOf psz"
  by (simp add: createThreads_def unitsOf_def Let_def shape_fold_rowcol shape_fold_sub2)

lemma createThreads_slot:
  "j < length (createThreads psz) \<Longrightarrow> slot (snd (createThreads psz ! j)) = j"
proof -
  let ?rc = "fold (spawnRowCol psz) [1..psz] ([], 0)"
  have "slotted ?rc" by (rule slotted_fold_rowcol [OF slotted_Nil])
  then have "slotted (if isqrt psz * isqrt psz = psz \<and> isqrt psz > 1
      then fold (\<lambda>r. fold (spawnSubgrid psz r) (stride (isqrt psz) psz 1)) (stride (isqrt psz) psz 1) ?rc
      else ?rc)" by (simp add: slotted_fold_sub2)
  then show "j < length (createThreads psz) \<Longrightarrow> slot (snd (createThreads psz ! j)) = j"
    by (simp add: createThreads_def Let_def slotted_def)
qed

lemma length_concat_const:
  "(\<And>x. x \<in> set xs \<Longrightarrow> length (f x) = n) \<Longrightarrow> length (concat (map f xs)) = length xs * n"
  by (induction xs) simp_all

lemma length_stride_square: "1 < s \<Longrightarrow> length (stride s (s * s) 1) = nat s"
  by (simp add: stride_anchors)

lemma length_unitsOf:
  assumes "0 \<le> psz"
  shows "length (unitsOf psz) =
     nat (psz * 2 + (if isqrt psz * isqrt psz = psz \<and> isqrt psz > 1 then psz else 0))"
proof -
  define s where "s = isqrt psz"
  have rc: "length (concat (map (\<lambda>i. [(CheckRow, i, 1, psz), (CheckCol, 1, i, psz)]) [1..psz])) = nat psz * 2"
    by (subst length_concat_const [where n = 2]) simp_all
  have two: "nat (psz * 2) = nat psz * 2"
    using assms by (simp add: nat_mult_distrib)
  show ?thesis
  proof (cases "s * s = psz \<and> s > 1")
    case False
    then have "\<not> (isqrt psz * isqrt psz = psz \<and> isqrt psz > 1)"
      unfolding s_def .
    then have "unitsOf psz = concat (map (\<lambda>i. [(CheckRow, i, 1, psz), (CheckCol, 1, i, psz)]) [1..psz])"
      unfolding unitsOf_def by (simp only: if_False append_Nil2)
    then have "length (unitsOf psz) = nat (psz * 2)" by (simp only: rc two)
    moreover have "psz * 2 + (if isqrt psz * isqrt psz = psz \<and> isqrt psz > 1 then psz else 0) = psz * 2"
      using \<open>\<not> (isqrt psz * isqrt psz = psz \<and> isqrt psz > 1)\<close> by (simp only: if_False add_0_right)
    ultimately show ?thesis by (simp only:)
  next
    case True
    then have gt: "1 < s" by simp
    have len: "length (stride s psz 1) = nat s"
      using length_stride_square [OF gt] True by simp
    have sub: "length (concat (map (\<lambda>r. map (\<lambda>c. (CheckSubgrid, r, c, psz)) (stride s psz 1))
                     (stride s psz 1))) = nat s * nat s"
      by (subst length_concat_const [where n = "nat s"]) (simp_all only: length_map len)
    have "nat s * nat s = nat (s * s)"
      using gt by (simp add: nat_mult_distrib)
    also have "\<dots> = nat psz" using True by simp
    finally have sq: "nat s * nat s = nat psz" .
    have "unitsOf psz = concat (map (\<lambda>i. [(CheckRow, i, 1, psz), (CheckCol, 1, i, psz)]) [1..psz]) @
        concat (map (\<lambda>r. map (\<lambda>c. (CheckSubgrid, r, c, psz)) (stride s psz 1)) (stride s psz 1))"
      using True unfolding unitsOf_def s_def by simp
    then have "length (unitsOf psz) = nat psz * 2 + nat psz"
      by (simp only: length_append rc sub sq)
    moreover have "nat (psz * 2 + psz) = nat psz * 2 + nat psz"
      using assms by (simp add: nat_add_distrib nat_mult_distrib)
    ultimately show ?thesis using True unfolding s_def by simp
  qed
qed

lemma length_createThreads:
  "0 \<le> psz \<Longrightarrow> length (createThreads psz) =
     nat (psz * 2 + (if isqrt psz * isqrt psz = psz \<and> isqrt psz > 1 then psz else 0))"
  using length_unitsOf [of psz] createThreads_shape [of psz]
  by (metis length_map)

text \<open>
  Every thread writes inside the two lists of \<^verbatim>\<open>checkPuzzle\<close>: its slot is below
  \<^verbatim>\<open>totalThreads\<close>.
\<close>

lemma createThreads_slot_in_range:
  assumes "0 \<le> psz" and "t \<in> set (createThreads psz)"
  shows "slot (snd t) <
     nat (psz * 2 + (if isqrt psz * isqrt psz = psz \<and> isqrt psz > 1 then psz else 0))"
proof -
  from assms(2) obtain j where j: "j < length (createThreads psz)" "t = createThreads psz ! j"
    by (auto simp: in_set_conv_nth)
  then have "slot (snd t) = j" by (simp add: createThreads_slot)
  with j(1) length_createThreads [OF assms(1)] show ?thesis by simp
qed

subsection \<open>The flags that checkPuzzle returns\<close>

lemma set_blockRow: "set (blockRow g r c n) = {g r (c + int k) | k. k < n}"
  by (auto simp: blockRow_def)

lemma in_block:
  assumes "vs \<in> set (block g r c n)" and "v \<in> set vs"
  shows "\<exists>i j. i < n \<and> j < n \<and> v = g (r + int i) (c + int j)"
proof -
  from assms(1) obtain i where i: "i < n" "vs = blockRow g (r + int i) c n"
    by (auto simp: block_def)
  with assms(2) obtain j where "j < n" "v = g (r + int i) (c + int j)"
    by (auto simp: blockRow_def)
  with i show ?thesis by blast
qed

lemma anchor_bounds:
  assumes "1 < s" and "x \<in> set (stride s (s * s) 1)" and "k < nat s"
  shows "1 \<le> x + int k \<and> x + int k \<le> s * s"
proof -
  from assms(1,2) obtain j where j: "0 \<le> j" "j \<le> s - 1" and x: "x = 1 + j * s"
    by (auto simp: stride_anchors)
  from j assms(1) have "j * s \<le> (s - 1) * s" by (simp add: mult_right_mono)
  then have "j * s + s \<le> s * s" by (simp add: algebra_simps)
  moreover from j assms(1) have "0 \<le> j * s" by simp
  moreover from assms(3) have "int k < s" by simp
  ultimately show ?thesis using x by simp
qed

lemma digits_indexable:
  assumes "0 \<le> n" and "digits n g" and "u \<in> set (unitsOf n)"
  shows "indexable g u"
proof -
  define s where "s = isqrt n"
  from assms(3) consider
      (row) i where "i \<in> {1..n}" "u = (CheckRow, i, 1, n)"
    | (col) i where "i \<in> {1..n}" "u = (CheckCol, 1, i, n)"
    | (sub) r c where "s * s = n" "1 < s" "r \<in> set (stride s n 1)" "c \<in> set (stride s n 1)"
        "u = (CheckSubgrid, r, c, n)"
    by (auto simp: unitsOf_def s_def split: if_splits)
  then show ?thesis
  proof cases
    case row
    with assms(1,2) show ?thesis by (simp add: digits_def)
  next
    case col
    with assms(1,2) show ?thesis by (simp add: digits_def)
  next
    case sub
    have "0 \<le> v \<and> v \<le> n" if "vs \<in> set (block g r c (nat s))" "v \<in> set vs" for vs v
    proof -
      from in_block [OF that] obtain i j
        where ij: "i < nat s" "j < nat s" "v = g (r + int i) (c + int j)" by blast
      from sub have rs: "r \<in> set (stride s (s * s) 1)" "c \<in> set (stride s (s * s) 1)" by simp_all
      from anchor_bounds [OF sub(2) rs(1) ij(1)] anchor_bounds [OF sub(2) rs(2) ij(2)] sub(1)
      have "r + int i \<in> {1..n}" "c + int j \<in> {1..n}" by simp_all
      with assms(2) ij(3) show ?thesis by (simp add: digits_def)
    qed
    with sub assms(1) show ?thesis by (simp add: s_def)
  qed
qed

lemma slot_unique:
  assumes "length ps = T" and "\<And>i. i < T \<Longrightarrow> slot (snd (ps ! i)) = i" and "j < T"
  shows "(\<exists>t \<in> set ps. slot (snd t) = j \<and> P t) \<longleftrightarrow> P (ps ! j)"
proof
  assume "\<exists>t \<in> set ps. slot (snd t) = j \<and> P t"
  then obtain t where t: "t \<in> set ps" "slot (snd t) = j" "P t" by blast
  from t(1) obtain i where i: "i < length ps" "t = ps ! i" by (auto simp: in_set_conv_nth)
  with assms(1,2) have "slot (snd t) = i" by simp
  with t(2) i t(3) show "P (ps ! j)" by simp
next
  assume "P (ps ! j)"
  moreover have "ps ! j \<in> set ps" using assms(1,3) by simp
  moreover have "slot (snd (ps ! j)) = j" using assms(2,3) by simp
  ultimately show "\<exists>t \<in> set ps. slot (snd t) = j \<and> P t" by blast
qed

lemma checkPuzzle_flags:
  assumes "0 \<le> n" and "digits n g"
  shows "checkPuzzle n g =
           Inr (\<forall>u \<in> set (unitsOf n). \<not> fst (verdict g u),
                \<forall>u \<in> set (unitsOf n). \<not> snd (verdict g u), g)"
proof -
  define T where "T = nat (n * 2 + (if isqrt n * isqrt n = n \<and> isqrt n > 1 then n else 0))"
  define params where "params = createThreads n"
  define st0 where "st0 = \<lparr>cells = g, listInvalid = replicate T False, listComplete = replicate T True\<rparr>"
  define st where "st = fold (\<lambda>t. report (slot (snd t)) (verdict g (shape t))) params st0"
  have len: "length params = T"
    unfolding params_def T_def by (rule length_createThreads [OF assms(1)])
  have slot: "slot (snd (params ! j)) = j" if "j < T" for j
    using that len createThreads_slot [of j n] by (simp add: params_def)
  have shapes: "map shape params = unitsOf n"
    unfolding params_def by (rule createThreads_shape)
  have "\<forall>t \<in> set params. indexable (cells st0) (shape t)"
  proof
    fix t assume "t \<in> set params"
    then have "shape t \<in> set (unitsOf n)" unfolding shapes [symmetric] by simp
    from digits_indexable [OF assms this] show "indexable (cells st0) (shape t)"
      by (simp add: st0_def)
  qed
  from forEach_runThread [OF this] have run: "forEach runThread params st0 = Inr st"
    by (simp add: st_def st0_def)
  have c: "cells st = g" by (simp add: st_def st0_def)
  have lc: "listComplete st ! j \<longleftrightarrow> \<not> fst (verdict g (shape (params ! j)))" if "j < T" for j
  proof -
    have "j < length (listComplete st0)" using that by (simp add: st0_def)
    from fold_report_complete [OF this, of g params]
    have "listComplete st ! j \<longleftrightarrow> \<not> (\<exists>t \<in> set params. slot (snd t) = j \<and> fst (verdict g (shape t)))"
      using that by (simp add: st_def st0_def)
    also have "\<dots> \<longleftrightarrow> \<not> fst (verdict g (shape (params ! j)))"
      using slot_unique [OF len slot that, of "\<lambda>t. fst (verdict g (shape t))"] by simp
    finally show ?thesis .
  qed
  have li: "listInvalid st ! j \<longleftrightarrow> snd (verdict g (shape (params ! j)))" if "j < T" for j
  proof -
    have "j < length (listInvalid st0)" using that by (simp add: st0_def)
    from fold_report_invalid [OF this, of g params]
    have "listInvalid st ! j \<longleftrightarrow> (\<exists>t \<in> set params. slot (snd t) = j \<and> snd (verdict g (shape t)))"
      using that by (simp add: st_def st0_def)
    also have "\<dots> \<longleftrightarrow> snd (verdict g (shape (params ! j)))"
      using slot_unique [OF len slot that, of "\<lambda>t. snd (verdict g (shape t))"] by simp
    finally show ?thesis .
  qed
  have units: "(\<forall>j \<in> set [0..<T]. P (shape (params ! j))) \<longleftrightarrow> (\<forall>u \<in> set (unitsOf n). P u)" for P
  proof -
    have "(\<forall>u \<in> set (unitsOf n). P u) \<longleftrightarrow> (\<forall>t \<in> set params. P (shape t))"
      unfolding shapes [symmetric] by simp
    also have "\<dots> \<longleftrightarrow> (\<forall>j < T. P (shape (params ! j)))"
      using len by (simp add: all_set_conv_all_nth)
    also have "\<dots> \<longleftrightarrow> (\<forall>j \<in> set [0..<T]. P (shape (params ! j)))"
      by auto
    finally show ?thesis by (rule sym)
  qed
  have "fold (joinStep params st) [0..<T] (True, True) =
      (\<forall>j \<in> set [0..<T]. \<not> fst (verdict g (shape (params ! j))),
       \<forall>j \<in> set [0..<T]. \<not> snd (verdict g (shape (params ! j))))"
    unfolding fold_joinStep using slot lc li by simp
  then have join: "fold (joinStep params st) [0..<T] (True, True) =
      (\<forall>u \<in> set (unitsOf n). \<not> fst (verdict g u), \<forall>u \<in> set (unitsOf n). \<not> snd (verdict g u))"
    using units [of "\<lambda>u. \<not> fst (verdict g u)"] units [of "\<lambda>u. \<not> snd (verdict g u)"]
    by simp
  have "checkPuzzle n g =
      (case forEach runThread params st0 of
         Inl e \<Rightarrow> Inl e
       | Inr st \<Rightarrow>
           (case fold (joinStep params st) [0..<T] (True, True) of
              (complete, valid) \<Rightarrow> Inr (complete, valid, cells st)))"
    using assms(1) unfolding checkPuzzle_def Let_def params_def st0_def T_def by simp
  then show ?thesis
    by (simp add: run join c)
qed

subsection \<open>Solved grids\<close>

lemma filledD: "filled n g \<Longrightarrow> r \<in> {1..n} \<Longrightarrow> c \<in> {1..n} \<Longrightarrow> 1 \<le> g r c \<and> g r c \<le> n"
  unfolding filled_def by blast

lemma upto_as_upt: "[i..j] = map (\<lambda>k. i + int k) [0..<nat (j - i + 1)]"
proof (induction "nat (j - i + 1)" arbitrary: i)
  case 0
  then show ?case by (simp add: upto.simps)
next
  case (Suc n)
  then have le: "i \<le> j" by linarith
  have n: "n = nat (j - (i + 1) + 1)" using Suc.hyps(2) by linarith
  have up: "[0..<Suc n] = 0 # map Suc [0..<n]"
    by (simp add: upt_conv_Cons map_Suc_upt del: upt_Suc)
  have "[i..j] = i # [i + 1..j]" using le by (simp add: upto.simps)
  also have "[i + 1..j] = map (\<lambda>k. i + 1 + int k) [0..<n]"
    using Suc.hyps(1) [OF n] n by simp
  finally show ?case
    unfolding Suc.hyps(2) [symmetric] up by (simp add: comp_def algebra_simps)
qed

lemma boxCells_block:
  "0 \<le> s \<Longrightarrow> concat (block g (1 + br * s) (1 + bc * s) (nat s)) = boxCells s g br bc"
proof -
  assume "0 \<le> s"
  have a: "[x * s + 1..x * s + s] = map (\<lambda>k. 1 + x * s + int k) [0..<nat s]" for x
    by (subst upto_as_upt) (simp add: algebra_simps)
  show ?thesis
    unfolding boxCells_def a block_def blockRow_def by (simp add: comp_def)
qed

lemma unit_scan_clean:
  assumes "\<forall>v \<in> set vs. 0 < v" and "distinct vs"
  shows "unit_scan {} vs = (False, False)"
proof -
  from assms(1) have f: "filter (\<lambda>v. 0 < v) vs = vs" by (simp add: filter_id_conv)
  have dup: "\<not> snd (unit_scan {} vs)"
    using assms(2) by (simp add: unit_scan_dup f)
  from unit_scan_incomplete_iff [OF dup] assms(1) have "\<not> fst (unit_scan {} vs)" by auto
  with dup show ?thesis by (simp add: prod_eq_iff)
qed

lemma rules_verdict:
  assumes "filled n g" and "sudokuRules n g" and "u \<in> set (unitsOf n)"
  shows "verdict g u = (False, False)"
proof -
  define s where "s = isqrt n"
  from assms(3) consider
      (row) i where "i \<in> {1..n}" "u = (CheckRow, i, 1, n)"
    | (col) i where "i \<in> {1..n}" "u = (CheckCol, 1, i, n)"
    | (sub) r c where "s * s = n" "1 < s" "r \<in> set (stride s n 1)" "c \<in> set (stride s n 1)"
        "u = (CheckSubgrid, r, c, n)"
    by (auto simp: unitsOf_def s_def split: if_splits)
  then show ?thesis
  proof cases
    case row
    have "\<forall>v \<in> set (map (g i) [1..n]). 0 < v"
      using filledD [OF assms(1) row(1)] by fastforce
    moreover have "distinct (map (g i) [1..n])"
      using assms(2) row(1) by (simp add: sudokuRules_def rowCells_def)
    ultimately show ?thesis using row(2) by (simp add: unit_scan_clean)
  next
    case col
    have "\<forall>v \<in> set (map (\<lambda>r. g r i) [1..n]). 0 < v"
      using filledD [OF assms(1) _ col(1)] by fastforce
    moreover have "distinct (map (\<lambda>r. g r i) [1..n])"
      using assms(2) col(1) by (simp add: sudokuRules_def colCells_def)
    ultimately show ?thesis using col(2) by (simp add: unit_scan_clean)
  next
    case sub
    from sub(2,3,4) sub(1) [symmetric] obtain br bc
      where b: "br \<in> {0..s - 1}" "bc \<in> {0..s - 1}" and rc: "r = 1 + br * s" "c = 1 + bc * s"
      by (auto simp: stride_anchors)
    from assms(2) b have "distinct (boxCells s g br bc)"
      by (simp add: sudokuRules_def s_def)
    then have "distinct (concat (block g r c (nat s)))"
      using boxCells_block [of s g br bc] sub(2) rc by simp
    then have "\<not> block_scan {} (block g r c (nat s))"
      by (simp add: block_scan_iff)
    then show ?thesis using sub(5) by (simp add: s_def)
  qed
qed

lemma filled_digits: "filled n g \<Longrightarrow> digits n g"
  unfolding digits_def using filledD [of n g] by fastforce

text \<open>
  Claim C1. For every grid of size \<open>n\<close> in \<open>{1, 4, 9, 16}\<close> whose cells all hold a digit
  of \<open>1..n\<close> and in which no row, no column and no subgrid holds a value twice,
  \<^verbatim>\<open>checkPuzzle\<close> returns without a fault, with \<^verbatim>\<open>complete = true\<close> and
  \<^verbatim>\<open>valid = true\<close>.
\<close>

theorem checkPuzzle_solved_grid:
  assumes "n \<in> {1, 4, 9, 16}" and "filled n g" and "sudokuRules n g"
  shows "checkPuzzle n g = Inr (True, True, g)"
proof -
  from assms(1) have "0 \<le> n" by auto
  from checkPuzzle_flags [OF this filled_digits [OF assms(2)]]
  show ?thesis using rules_verdict [OF assms(2,3)] by simp
qed

lemma isqrt_4: "isqrt 4 = 2"
  by code_simp

lemma filled_solved4: "filled 4 solved4"
  unfolding filled_def set_upto [symmetric] by code_simp

lemma rules_solved4: "sudokuRules 4 solved4"
  unfolding sudokuRules_def set_upto [symmetric] by code_simp

theorem checkPuzzle_solved_grid_witness:
  "(4::int) \<in> {1, 4, 9, 16} \<and> filled 4 solved4 \<and> sudokuRules 4 solved4 \<and>
   checkPuzzle 4 solved4 = Inr (True, True, solved4)"
  using checkPuzzle_solved_grid [of 4 solved4] filled_solved4 rules_solved4 by simp

subsection \<open>The fill pass\<close>

lemma boundedD: "bounded n g \<Longrightarrow> r \<in> {1..n} \<Longrightarrow> c \<in> {1..n} \<Longrightarrow> g r c \<le> n"
  unfolding bounded_def by blast

lemma wr_clear:
  assumes "length p = nat (n + 1)" and "0 < v" and "v \<le> n"
  shows "wr p v False = Inr (p[nat v := False])"
  using assms by (simp add: wr_def)

lemma nth_clear:
  assumes "length p = nat (n + 1)" and "1 \<le> d" and "d \<le> n" and "0 < v"
  shows "p[nat v := False] ! nat d = (p ! nat d \<and> d \<noteq> v)"
proof (cases "d = v")
  case True
  with assms show ?thesis by simp
next
  case False
  with assms have "nat v \<noteq> nat d" by auto
  with False show ?thesis by simp
qed

lemma markStep_clears:
  assumes "length p = nat (n + 1)" and "g r num \<le> n" and "g num c \<le> n"
  shows "\<exists>p'. markStep g r c num p = Inr p' \<and> length p' = nat (n + 1) \<and>
           (\<forall>d. 1 \<le> d \<and> d \<le> n \<longrightarrow> p' ! nat d = (p ! nat d \<and> d \<noteq> g r num \<and> d \<noteq> g num c))"
proof -
  define p1 where "p1 = (if 0 < g r num then p[nat (g r num) := False] else p)"
  define p2 where "p2 = (if 0 < g num c then p1[nat (g num c) := False] else p1)"
  have l1: "length p1 = nat (n + 1)" using assms(1) by (simp add: p1_def)
  have l2: "length p2 = nat (n + 1)" using l1 by (simp add: p2_def)
  have s1: "(if g r num > 0 then wr p (g r num) False else Inr p) = Inr p1"
    using wr_clear [OF assms(1) _ assms(2)] by (simp add: p1_def)
  have s2: "(if g num c > 0 then wr p1 (g num c) False else Inr p1) = Inr p2"
    using wr_clear [OF l1 _ assms(3)] by (simp add: p2_def)
  have run: "markStep g r c num p = Inr p2"
    by (simp add: markStep_def s1 s2)
  have n1: "p1 ! nat d = (p ! nat d \<and> d \<noteq> g r num)" if "1 \<le> d" "d \<le> n" for d
    using nth_clear [OF assms(1) that] that by (auto simp: p1_def)
  have n2: "p2 ! nat d = (p1 ! nat d \<and> d \<noteq> g num c)" if "1 \<le> d" "d \<le> n" for d
    using nth_clear [OF l1 that] that by (auto simp: p2_def)
  from run l2 n1 n2 show ?thesis by auto
qed

lemma forEach_markStep:
  assumes "length p = nat (n + 1)" and "\<forall>num \<in> set nums. g r num \<le> n \<and> g num c \<le> n"
  shows "\<exists>p'. forEach (markStep g r c) nums p = Inr p' \<and> length p' = nat (n + 1) \<and>
           (\<forall>d. 1 \<le> d \<and> d \<le> n \<longrightarrow>
              p' ! nat d = (p ! nat d \<and> d \<notin> set (map (g r) nums @ map (\<lambda>k. g k c) nums)))"
  using assms
proof (induction nums arbitrary: p)
  case Nil
  then show ?case by simp
next
  case (Cons num nums)
  from Cons.prems have b: "g r num \<le> n" "g num c \<le> n"
    and rest: "\<forall>num \<in> set nums. g r num \<le> n \<and> g num c \<le> n" by simp_all
  from markStep_clears [of p n g r num c, OF Cons.prems(1) b] obtain p1
    where p1: "markStep g r c num p = Inr p1" "length p1 = nat (n + 1)"
      "\<forall>d. 1 \<le> d \<and> d \<le> n \<longrightarrow> p1 ! nat d = (p ! nat d \<and> d \<noteq> g r num \<and> d \<noteq> g num c)"
    by blast
  from Cons.IH [OF p1(2) rest] obtain p'
    where p': "forEach (markStep g r c) nums p1 = Inr p'" "length p' = nat (n + 1)"
      "\<forall>d. 1 \<le> d \<and> d \<le> n \<longrightarrow>
          p' ! nat d = (p1 ! nat d \<and> d \<notin> set (map (g r) nums @ map (\<lambda>k. g k c) nums))"
    by blast
  have "forEach (markStep g r c) (num # nums) p = Inr p'"
    using p1(1) p'(1) by simp
  moreover have "\<forall>d. 1 \<le> d \<and> d \<le> n \<longrightarrow>
      p' ! nat d = (p ! nat d \<and> d \<notin> set (map (g r) (num # nums) @ map (\<lambda>k. g k c) (num # nums)))"
    using p1(3) p'(3) by auto
  ultimately show ?case using p'(2) by blast
qed

lemma fold_countStep:
  "fold (countStep p) nums (cnt, m) =
     (cnt + int (length (filter (\<lambda>d. p ! nat d) nums)),
      case filter (\<lambda>d. p ! nat d) nums of [] \<Rightarrow> m | d # ds \<Rightarrow> Some (last (d # ds)))"
proof (induction nums arbitrary: cnt m)
  case Nil
  then show ?case by simp
next
  case (Cons num nums)
  show ?case
  proof (cases "p ! nat num")
    case True
    then show ?thesis
      using Cons.IH [of "cnt + 1" "Some num"]
      by (simp add: countStep_def split: list.splits)
  next
    case False
    then show ?thesis
      using Cons.IH [of cnt m] by (simp add: countStep_def)
  qed
qed

lemma possible_candidates:
  assumes "0 \<le> n" and "\<forall>k \<in> {1..n}. g r k \<le> n \<and> g k c \<le> n"
  shows "\<exists>p. forEach (markStep g r c) [1..n] (replicate (nat (n + 1)) True) = Inr p \<and>
           filter (\<lambda>d. p ! nat d) [1..n] = candidates n g r c"
proof -
  have len: "length (replicate (nat (n + 1)) True) = nat (n + 1)" by simp
  have rng: "\<forall>num \<in> set [1..n]. g r num \<le> n \<and> g num c \<le> n" using assms(2) by simp
  from forEach_markStep [OF len rng] obtain p
    where p: "forEach (markStep g r c) [1..n] (replicate (nat (n + 1)) True) = Inr p"
      "\<forall>d. 1 \<le> d \<and> d \<le> n \<longrightarrow>
         p ! nat d = (replicate (nat (n + 1)) True ! nat d \<and> d \<notin> set (peers n g r c))"
    unfolding peers_def by blast
  have "p ! nat d = (d \<notin> set (peers n g r c))" if "d \<in> set [1..n]" for d
  proof -
    from that have d: "1 \<le> d" "d \<le> n" by simp_all
    then have "nat d < nat (n + 1)" by simp
    then have "replicate (nat (n + 1)) True ! nat d" by simp
    with p(2) d show ?thesis by simp
  qed
  then have "filter (\<lambda>d. p ! nat d) [1..n] = candidates n g r c"
    unfolding candidates_def by (intro filter_cong) simp_all
  with p(1) show ?thesis by blast
qed

lemma solveCell_fillCell:
  assumes "0 \<le> n" and "\<forall>k \<in> {1..n}. g r k \<le> n \<and> g k c \<le> n"
  shows "\<exists>m'. solveCell n r c (g, m) = Inr (fillCell n (r, c) g, m')"
proof (cases "g r c = 0")
  case False
  then show ?thesis by (simp add: solveCell_def fillCell_def)
next
  case True
  from possible_candidates [OF assms] obtain p
    where p: "forEach (markStep g r c) [1..n] (replicate (nat (n + 1)) True) = Inr p"
      "filter (\<lambda>d. p ! nat d) [1..n] = candidates n g r c" by blast
  let ?cs = "candidates n g r c"
  have cnt: "fold (countStep p) [1..n] (0, m) =
      (int (length ?cs), case ?cs of [] \<Rightarrow> m | d # ds \<Rightarrow> Some (last (d # ds)))"
    unfolding fold_countStep p(2) by simp
  show ?thesis
  proof (cases "length ?cs = 1")
    case one: True
    then obtain d where d: "?cs = [d]" by (cases ?cs) auto
    with True p(1) cnt show ?thesis
      by (simp add: solveCell_def fillCell_def)
  next
    case other: False
    then have "\<And>d. ?cs \<noteq> [d]" by auto
    then have "(case ?cs of [d] \<Rightarrow> g(r := (g r)(c := d)) | _ \<Rightarrow> g) = g"
      by (auto split: list.splits)
    with True other p(1) cnt show ?thesis
      by (simp add: solveCell_def fillCell_def)
  qed
qed

lemma candidates_range: "d \<in> set (candidates n g r c) \<Longrightarrow> 1 \<le> d \<and> d \<le> n"
  by (simp add: candidates_def)

lemma fillCell_other: "(r', c') \<noteq> (r, c) \<Longrightarrow> fillCell n (r, c) g r' c' = g r' c'"
  by (auto simp: fillCell_def split: list.splits)

lemma fillCell_bounded:
  assumes "bounded n g"
  shows "bounded n (fillCell n (r, c) g)"
proof -
  have "fillCell n (r, c) g r' c' \<le> n" if "r' \<in> {1..n}" "c' \<in> {1..n}" for r' c'
  proof (cases "(r', c') = (r, c)")
    case False
    then show ?thesis using boundedD [OF assms that] by (simp add: fillCell_other)
  next
    case True
    show ?thesis
    proof (cases "g r c = 0 \<and> (\<exists>d. candidates n g r c = [d])")
      case fill: True
      then obtain d where d: "candidates n g r c = [d]" by blast
      then have "d \<in> set (candidates n g r c)" by simp
      from candidates_range [OF this] True fill d show ?thesis
        by (simp add: fillCell_def)
    next
      case False
      then have "fillCell n (r, c) g = g"
        by (auto simp: fillCell_def split: list.splits)
      with boundedD [OF assms that] show ?thesis by simp
    qed
  qed
  then show ?thesis unfolding bounded_def by blast
qed

lemma forEach_solveCell:
  assumes "0 \<le> n" and "bounded n g" and "r \<in> {1..n}" and "set cs \<subseteq> {1..n}"
  shows "\<exists>m'. forEach (solveCell n r) cs (g, m) = Inr (fold (\<lambda>c. fillCell n (r, c)) cs g, m')"
  using assms(2,4)
proof (induction cs arbitrary: g m)
  case Nil
  then show ?case by simp
next
  case (Cons c cs)
  from Cons.prems(2) have c: "c \<in> {1..n}" and cs: "set cs \<subseteq> {1..n}" by simp_all
  have "\<forall>k \<in> {1..n}. g r k \<le> n \<and> g k c \<le> n"
    using boundedD [OF Cons.prems(1)] assms(3) c by blast
  from solveCell_fillCell [OF assms(1) this] obtain m1
    where m1: "solveCell n r c (g, m) = Inr (fillCell n (r, c) g, m1)" by blast
  from Cons.IH [OF fillCell_bounded [OF Cons.prems(1)] cs] obtain m'
    where "forEach (solveCell n r) cs (fillCell n (r, c) g, m1) =
        Inr (fold (\<lambda>c. fillCell n (r, c)) cs (fillCell n (r, c) g), m')" by blast
  with m1 show ?case by simp
qed

lemma fold_fillCell_bounded:
  "bounded n g \<Longrightarrow> bounded n (fold (fillCell n) ps g)"
proof (induction ps arbitrary: g)
  case Nil
  then show ?case by simp
next
  case (Cons p ps)
  then show ?case by (cases p) (simp add: fillCell_bounded)
qed

lemma fold_row: "fold (\<lambda>c. f (r, c)) cs g = fold f (map (\<lambda>c. (r, c)) cs) g"
  by (simp add: fold_map comp_def)

lemma forEach_rows:
  assumes "0 \<le> n" and "bounded n g" and "set rs \<subseteq> {1..n}"
  shows "\<exists>m'. forEach (\<lambda>r. forEach (solveCell n r) [1..n]) rs (g, m) =
           Inr (fold (fillCell n) (concat (map (\<lambda>r. map (\<lambda>c. (r, c)) [1..n]) rs)) g, m')"
  using assms(2,3)
proof (induction rs arbitrary: g m)
  case Nil
  then show ?case by simp
next
  case (Cons r rs)
  from Cons.prems(2) have r: "r \<in> {1..n}" and rs: "set rs \<subseteq> {1..n}" by simp_all
  let ?g = "fold (fillCell n) (map (\<lambda>c. (r, c)) [1..n]) g"
  from forEach_solveCell [OF assms(1) Cons.prems(1) r, of "[1..n]" m] obtain m1
    where m1: "forEach (solveCell n r) [1..n] (g, m) = Inr (?g, m1)"
    unfolding fold_row by auto
  have "bounded n ?g" by (rule fold_fillCell_bounded [OF Cons.prems(1)])
  from Cons.IH [OF this rs] obtain m'
    where "forEach (\<lambda>r. forEach (solveCell n r) [1..n]) rs (?g, m1) =
        Inr (fold (fillCell n) (concat (map (\<lambda>r. map (\<lambda>c. (r, c)) [1..n]) rs)) ?g, m')" by blast
  with m1 show ?case by simp
qed

lemma solveMissingNumber_pass:
  assumes "0 \<le> n" and "bounded n g"
  shows "solveMissingNumber g n = Inr (fold (fillCell n) (rowMajor n) g)"
proof -
  from forEach_rows [OF assms, of "[1..n]" None] obtain m'
    where "forEach (\<lambda>r. forEach (solveCell n r) [1..n]) [1..n] (g, None) =
        Inr (fold (fillCell n) (rowMajor n) g, m')"
    unfolding rowMajor_def by auto
  with assms(1) show ?thesis by (simp add: solveMissingNumber_def)
qed

subsection \<open>Frame of the checks, sizes, and two failing inputs\<close>

lemma checkRow_loop_frame:
  "checkRow_loop data cols seen rc st = Inr (rc', st') \<Longrightarrow>
     cells st' = cells st \<and> listComplete st' = listComplete st"
proof (induction cols arbitrary: seen rc)
  case Nil
  then show ?case by simp
next
  case (Cons col cols)
  then show ?case
    by (auto simp: Let_def split: if_splits sum.splits)
qed

lemma checkCol_loop_frame:
  "checkCol_loop data rs seen rc st = Inr (rc', st') \<Longrightarrow>
     cells st' = cells st \<and> listComplete st' = listComplete st"
proof (induction rs arbitrary: seen rc)
  case Nil
  then show ?case by simp
next
  case (Cons r rs)
  then show ?case
    by (auto simp: Let_def split: if_splits sum.splits)
qed

lemma checkSubgrid_inner_frame:
  "checkSubgrid_inner data incR js incC seen st = Inr (seen', st') \<Longrightarrow>
     st' = st \<or> st' = flagInvalid (slot data) st"
proof (induction js arbitrary: incC seen)
  case Nil
  then show ?case by simp
next
  case (Cons j js)
  then show ?case
    by (auto simp: Let_def flagInvalid_def split: if_splits sum.splits)
qed

lemma checkSubgrid_outer_frame:
  "checkSubgrid_outer data js is incR seen st = Inr st' \<Longrightarrow>
     st' = st \<or> st' = flagInvalid (slot data) st"
proof (induction "is" arbitrary: incR seen st)
  case Nil
  then show ?case by simp
next
  case (Cons i "is")
  from Cons.prems obtain seen1 st1
    where inner: "checkSubgrid_inner data incR js 0 seen st = Inr (seen1, st1)"
      and outer: "checkSubgrid_outer data js is (incR + 1) seen1 st1 = Inr st'"
    by (auto split: sum.splits)
  from checkSubgrid_inner_frame [OF inner] Cons.IH [OF outer] show ?case by auto
qed

lemma checkSubgrid_only_invalid:
  "checkSubgrid data st = Inr st' \<Longrightarrow> st' = st \<or> st' = flagInvalid (slot data) st"
  by (auto simp: checkSubgrid_def Let_def split: if_splits dest: checkSubgrid_outer_frame)

lemma checkSubgrid_frame:
  "checkSubgrid data st = Inr st' \<Longrightarrow> cells st' = cells st \<and> listComplete st' = listComplete st"
  by (auto simp: flagInvalid_def dest: checkSubgrid_only_invalid)

lemma checkRow_frame: "checkRow data st = Inr st' \<Longrightarrow> cells st' = cells st"
  by (auto simp: checkRow_def Let_def split: if_splits sum.splits dest: checkRow_loop_frame)

lemma checkCol_frame: "checkCol data st = Inr st' \<Longrightarrow> cells st' = cells st"
  by (auto simp: checkCol_def Let_def split: if_splits sum.splits dest: checkCol_loop_frame)

lemma runThread_frame: "runThread t st = Inr st' \<Longrightarrow> cells st' = cells st"
proof (cases t)
  case (Pair routine data)
  assume "runThread t st = Inr st'"
  with Pair show ?thesis
    by (cases routine) (auto dest: checkRow_frame checkCol_frame checkSubgrid_frame)
qed

lemma forEach_runThread_frame: "forEach runThread ts st = Inr st' \<Longrightarrow> cells st' = cells st"
proof (induction ts arbitrary: st)
  case Nil
  then show ?case by simp
next
  case (Cons t ts)
  from Cons.prems obtain st1 where "runThread t st = Inr st1" "forEach runThread ts st1 = Inr st'"
    by (auto split: sum.splits)
  with Cons.IH [of st1] runThread_frame [of t st st1] show ?case by simp
qed

lemma checkPuzzle_frame: "checkPuzzle n g = Inr (complete, valid, g') \<Longrightarrow> g' = g"
  by (auto simp: checkPuzzle_def Let_def split: if_splits sum.splits prod.splits
      dest!: forEach_runThread_frame)

text \<open>
  Claim C7. \<^verbatim>\<open>checkPuzzle\<close> never writes to the grid: whenever it returns, the grid is
  the one it was given, and no thread (row, column or subgrid check) changes a cell; and a
  grid whose cells lie in \<open>0..n\<close> does make it return.
\<close>

theorem checkPuzzle_reads_only:
  "(0 \<le> n \<and> digits n g \<longrightarrow> (\<exists>complete valid. checkPuzzle n g = Inr (complete, valid, g))) \<and>
   (\<forall>complete valid g'. checkPuzzle n g = Inr (complete, valid, g') \<longrightarrow> g' = g) \<and>
   (\<forall>st'. runThread t st = Inr st' \<longrightarrow> cells st' = cells st)"
  using checkPuzzle_flags [of n g] checkPuzzle_frame [of n g] runThread_frame [of t st]
  by blast

lemma digits_twoBlanks4: "digits 4 twoBlanks4"
  unfolding digits_def set_upto [symmetric] by code_simp

theorem checkPuzzle_reads_only_witness:
  "(0::int) \<le> 4 \<and> digits 4 twoBlanks4 \<and>
   (\<exists>complete valid. checkPuzzle 4 twoBlanks4 = Inr (complete, valid, twoBlanks4))"
  using checkPuzzle_reads_only [of 4 twoBlanks4] digits_twoBlanks4 by simp

lemma solveCell_filled: "g r c \<noteq> 0 \<Longrightarrow> solveCell n r c (g, m) = Inr (g, m)"
  by (simp add: solveCell_def)

lemma forEach_solveCell_filled:
  "\<forall>c \<in> set cs. g r c \<noteq> 0 \<Longrightarrow> forEach (solveCell n r) cs (g, m) = Inr (g, m)"
  by (induction cs) (simp_all add: solveCell_filled)

lemma forEach_rows_filled:
  "\<forall>r \<in> set rs. \<forall>c \<in> set cs. g r c \<noteq> 0 \<Longrightarrow>
     forEach (\<lambda>r. forEach (solveCell n r) cs) rs (g, m) = Inr (g, m)"
  by (induction rs) (simp_all add: forEach_solveCell_filled)

text \<open>
  Claim C8. On a grid of size \<open>n \<ge> 0\<close> without an empty cell, \<^verbatim>\<open>solveMissingNumber\<close>
  returns the grid it was given.
\<close>

theorem solveMissingNumber_complete_grid:
  assumes "0 \<le> n" and "completeGrid n g"
  shows "solveMissingNumber g n = Inr g"
proof -
  have "forEach (\<lambda>r. forEach (solveCell n r) [1..n]) [1..n] (g, None) = Inr (g, None)"
    using assms(2) unfolding completeGrid_def by (intro forEach_rows_filled) simp
  with assms(1) show ?thesis by (simp add: solveMissingNumber_def)
qed

lemma solved4_complete: "completeGrid 4 solved4"
  unfolding completeGrid_def set_upto [symmetric] by code_simp

theorem solveMissingNumber_complete_grid_witness:
  "(0::int) \<le> 4 \<and> completeGrid 4 solved4 \<and> solveMissingNumber solved4 4 = Inr solved4"
  using solveMissingNumber_complete_grid [of 4 solved4] solved4_complete by simp

text \<open>
  Claim C9, as the code has it. \<^verbatim>\<open>checkPuzzle\<close> has no guard on the size. With size 0
  it creates no thread and returns \<^verbatim>\<open>complete = true\<close> and \<^verbatim>\<open>valid = true\<close>, the grid
  untouched; nothing is rejected. With a negative size its first statement converts the
  NaN of \<^verbatim>\<open>sqrt\<close> to \<^verbatim>\<open>int\<close>, which C leaves undefined, before any thread is created.
\<close>

theorem checkPuzzle_size_unchecked:
  "checkPuzzle 0 g = Inr (True, True, g) \<and> createThreads 0 = [] \<and>
   (n < 0 \<longrightarrow> checkPuzzle n g = Inl NanToInt)"
proof -
  have "isqrt 0 = 0" by (simp add: isqrt_def)
  moreover have "createThreads 0 = []"
    by (simp add: createThreads_def isqrt_def)
  ultimately show ?thesis
    by (simp add: checkPuzzle_def)
qed

theorem checkPuzzle_size_unchecked_witness:
  "(- 1 :: int) < 0 \<and> checkPuzzle (- 1) (readSudokuPuzzle []) = Inl NanToInt"
  using checkPuzzle_size_unchecked [of "readSudokuPuzzle []" "- 1"] by simp

text \<open>
  The claim C9 itself fails at size 0: the call returns both flags true, and no fault.
\<close>

theorem checkPuzzle_size_zero_accepted:
  "flagsOf (checkPuzzle 0 (readSudokuPuzzle [])) = Inr (True, True)"
  by (simp add: checkPuzzle_def createThreads_def isqrt_def flagsOf_def)

text \<open>
  Claim C2 fails on the code. The grid \<open>hidden4\<close> has an empty cell, and \<^verbatim>\<open>checkPuzzle\<close>
  returns \<^verbatim>\<open>complete = true\<close>: the scans of row 4 and of column 4 both stop at the
  repeated digit before they reach the cell.
\<close>

theorem checkPuzzle_misses_empty_cell:
  "hidden4 4 4 = 0 \<and> flagsOf (checkPuzzle 4 hidden4) = Inr (True, False)"
  by code_simp

text \<open>
  Claim C3 fails on the code. In the grid \<open>twoBlanks4\<close> no row, column or subgrid repeats
  a nonzero value, and \<^verbatim>\<open>checkPuzzle\<close> returns \<^verbatim>\<open>valid = false\<close>: the subgrid scan
  looks the two empty cells up in \<^verbatim>\<open>seen\<close> like digits.
\<close>

theorem checkPuzzle_two_blanks_invalid:
  "list_ex (\<lambda>i. nonzeroRepeated (rowCells 4 twoBlanks4 i)) [1..4] = False \<and>
   list_ex (\<lambda>i. nonzeroRepeated (colCells 4 twoBlanks4 i)) [1..4] = False \<and>
   list_ex (\<lambda>br. list_ex (\<lambda>bc. nonzeroRepeated (boxCells 2 twoBlanks4 br bc)) [0..1]) [0..1] = False \<and>
   flagsOf (checkPuzzle 4 twoBlanks4) = Inr (False, False)"
  by code_simp

subsection \<open>The unit checks and the complete flag\<close>

lemma unit_scan_stops:
  "snd (unit_scan S vs) \<Longrightarrow> unit_scan S (vs @ ws) = unit_scan S vs"
  by (induction vs arbitrary: S) (auto split: if_splits)

text \<open>
  Claim C5. On a unit whose values do not exceed the size, \<^verbatim>\<open>checkRow\<close> and
  \<^verbatim>\<open>checkCol\<close> return the store in which the result of the scan of the specification
  (\<open>unit_scan\<close>, over the cells of the unit in order) is written to the slot of the
  thread. In that scan a value \<open>v \<le> 0\<close> marks the unit incomplete and is never a
  duplicate: a duplicate is found exactly when a positive value is repeated. Once a
  duplicate is found the scan has stopped: whatever follows in the unit does not change the
  result.
\<close>

theorem unit_check_is_scan:
  "(indexable (cells st) (CheckRow, row data, column data, psize data) \<longrightarrow>
      checkRow data st =
        Inr (report (slot data) (unit_scan {} (map (cells st (row data)) [1..psize data])) st)) \<and>
   (indexable (cells st) (CheckCol, row data, column data, psize data) \<longrightarrow>
      checkCol data st =
        Inr (report (slot data) (unit_scan {} (map (\<lambda>r. cells st r (column data)) [1..psize data])) st)) \<and>
   (snd (unit_scan {} vs) \<longleftrightarrow> \<not> distinct (filter (\<lambda>v. 0 < v) vs)) \<and>
   (snd (unit_scan {} vs) \<longrightarrow> unit_scan {} (vs @ ws) = unit_scan {} vs)"
  using checkRow_report [of data st] checkCol_report [of data st]
    unit_scan_dup [of "{}" vs] unit_scan_stops [of "{}" vs ws]
  by simp

theorem unit_check_is_scan_witness:
  "indexable hidden4 (CheckRow, 4, 4, 4) \<and>
   checkRow \<lparr>row = 4, column = 4, psize = 4, slot = 0\<rparr>
      \<lparr>cells = hidden4, listInvalid = [False], listComplete = [True]\<rparr> =
     Inr \<lparr>cells = hidden4, listInvalid = [True], listComplete = [True]\<rparr> \<and>
   indexable hidden4 (CheckCol, 4, 4, 4) \<and>
   checkCol \<lparr>row = 4, column = 4, psize = 4, slot = 0\<rparr>
      \<lparr>cells = hidden4, listInvalid = [False], listComplete = [True]\<rparr> =
     Inr \<lparr>cells = hidden4, listInvalid = [True], listComplete = [True]\<rparr> \<and>
   snd (unit_scan {} [1, 1, 3, 0]) \<and>
   unit_scan {} ([1, 1, 3] @ [0]) = unit_scan {} [1, 1, 3]"
proof -
  have r: "map (hidden4 4) [1..4] = [1, 1, 3, 0]" by code_simp
  have c: "map (\<lambda>r. hidden4 r 4) [1..4] = [2, 2, 2, 0]" by code_simp
  have ir: "indexable hidden4 (CheckRow, 4, 4, 4)"
    unfolding indexable.simps set_upto [symmetric] by code_simp
  have ic: "indexable hidden4 (CheckCol, 4, 4, 4)"
    unfolding indexable.simps set_upto [symmetric] by code_simp
  show ?thesis
    using unit_check_is_scan [of "\<lparr>cells = hidden4, listInvalid = [False], listComplete = [True]\<rparr>"
        "\<lparr>row = 4, column = 4, psize = 4, slot = 0\<rparr>" "[1, 1, 3]" "[0]"] ir ic
    by (simp add: r c report_def flagInvalid_def flagIncomplete_def)
qed

lemma row_unit: "i \<in> {1..n} \<Longrightarrow> (CheckRow, i, 1, n) \<in> set (unitsOf n)"
  unfolding unitsOf_def by force

lemma col_unit: "i \<in> {1..n} \<Longrightarrow> (CheckCol, 1, i, n) \<in> set (unitsOf n)"
  unfolding unitsOf_def by force

lemma unitsOf_cases:
  assumes "u \<in> set (unitsOf n)"
  shows "(\<exists>i \<in> {1..n}. u = (CheckRow, i, 1, n)) \<or> (\<exists>i \<in> {1..n}. u = (CheckCol, 1, i, n)) \<or>
         (\<exists>r c. u = (CheckSubgrid, r, c, n))"
  using assms by (auto simp: unitsOf_def split: if_splits)

lemma units_complete:
  "(\<forall>u \<in> set (unitsOf n). \<not> fst (verdict g u)) \<longleftrightarrow>
   list_all (\<lambda>i. \<not> fst (unit_scan {} (rowCells n g i)) \<and> \<not> fst (unit_scan {} (colCells n g i))) [1..n]"
proof
  assume all: "\<forall>u \<in> set (unitsOf n). \<not> fst (verdict g u)"
  have "\<not> fst (unit_scan {} (rowCells n g i)) \<and> \<not> fst (unit_scan {} (colCells n g i))"
    if "i \<in> {1..n}" for i
    using all [rule_format, OF row_unit [OF that]] all [rule_format, OF col_unit [OF that]]
    by (simp add: rowCells_def colCells_def)
  then show "list_all (\<lambda>i. \<not> fst (unit_scan {} (rowCells n g i)) \<and>
      \<not> fst (unit_scan {} (colCells n g i))) [1..n]"
    by (simp add: list_all_iff)
next
  assume rc: "list_all (\<lambda>i. \<not> fst (unit_scan {} (rowCells n g i)) \<and>
      \<not> fst (unit_scan {} (colCells n g i))) [1..n]"
  show "\<forall>u \<in> set (unitsOf n). \<not> fst (verdict g u)"
  proof
    fix u assume "u \<in> set (unitsOf n)"
    from unitsOf_cases [OF this] rc show "\<not> fst (verdict g u)"
      by (auto simp: list_all_iff rowCells_def colCells_def)
  qed
qed

lemma subgrid_fires:
  assumes "indexable (cells st) (CheckSubgrid, row data, column data, psize data)"
    and "slot data < length (listInvalid st)"
    and "nonzeroRepeated (concat (block (cells st) (row data) (column data) (nat (isqrt (psize data)))))"
  shows "\<exists>st'. checkSubgrid data st = Inr st' \<and> listInvalid st' ! slot data"
proof -
  let ?blk = "block (cells st) (row data) (column data) (nat (isqrt (psize data)))"
  from assms(3) have "\<not> distinct (concat ?blk)"
    unfolding nonzeroRepeated_def using distinct_filter by blast
  then have hit: "block_scan {} ?blk" by (simp add: block_scan_iff)
  from assms(1) have "checkSubgrid data st = Inr (report (slot data) (False, block_scan {} ?blk) st)"
    by (intro checkSubgrid_report) simp_all
  with hit assms(2) show ?thesis
    by (simp add: report_def flagInvalid_def)
qed

text \<open>
  Claim C6. On a grid whose cells lie in \<open>0..n\<close>, the \<^verbatim>\<open>complete\<close> flag of
  \<^verbatim>\<open>checkPuzzle\<close> is the conjunction, over the rows and the columns only, of "the scan of
  the unit marked nothing incomplete". A subgrid thread that returns has written nothing, or
  \<^verbatim>\<open>true\<close> to its \<^verbatim>\<open>invalid\<close> slot and nothing else, so it leaves
  \<^verbatim>\<open>listComplete\<close> as it was; and it does set its \<^verbatim>\<open>invalid\<close> slot whenever a
  nonzero value is repeated in its subgrid.
\<close>

theorem subgrid_never_incomplete:
  "(0 \<le> n \<and> digits n g \<longrightarrow>
      (\<exists>valid. checkPuzzle n g =
         Inr (list_all (\<lambda>i. \<not> fst (unit_scan {} (rowCells n g i)) \<and>
                             \<not> fst (unit_scan {} (colCells n g i))) [1..n], valid, g))) \<and>
   (\<forall>st'. checkSubgrid data st = Inr st' \<longrightarrow>
      (st' = st \<or> st' = flagInvalid (slot data) st) \<and> listComplete st' = listComplete st) \<and>
   (indexable (cells st) (CheckSubgrid, row data, column data, psize data) \<and>
    slot data < length (listInvalid st) \<and>
    nonzeroRepeated (concat (block (cells st) (row data) (column data) (nat (isqrt (psize data))))) \<longrightarrow>
      (\<exists>st'. checkSubgrid data st = Inr st' \<and> listInvalid st' ! slot data))"
proof (intro conjI impI allI)
  assume "0 \<le> n \<and> digits n g"
  then have "checkPuzzle n g =
      Inr (\<forall>u \<in> set (unitsOf n). \<not> fst (verdict g u),
           \<forall>u \<in> set (unitsOf n). \<not> snd (verdict g u), g)"
    by (simp add: checkPuzzle_flags)
  then show "\<exists>valid. checkPuzzle n g =
      Inr (list_all (\<lambda>i. \<not> fst (unit_scan {} (rowCells n g i)) \<and>
                          \<not> fst (unit_scan {} (colCells n g i))) [1..n], valid, g)"
    unfolding units_complete by blast
next
  fix st' assume "checkSubgrid data st = Inr st'"
  then show "st' = st \<or> st' = flagInvalid (slot data) st"
    by (rule checkSubgrid_only_invalid)
next
  fix st' assume "checkSubgrid data st = Inr st'"
  then show "listComplete st' = listComplete st"
    by (simp add: checkSubgrid_frame)
next
  assume "indexable (cells st) (CheckSubgrid, row data, column data, psize data) \<and>
    slot data < length (listInvalid st) \<and>
    nonzeroRepeated (concat (block (cells st) (row data) (column data) (nat (isqrt (psize data)))))"
  then show "\<exists>st'. checkSubgrid data st = Inr st' \<and> listInvalid st' ! slot data"
    by (intro subgrid_fires) simp_all
qed

theorem subgrid_never_incomplete_witness:
  "(0::int) \<le> 4 \<and> digits 4 twoBlanks4 \<and>
   (\<exists>valid. checkPuzzle 4 twoBlanks4 = Inr (False, valid, twoBlanks4)) \<and>
   indexable hidden4 (CheckSubgrid, 1, 1, 4) \<and>
   nonzeroRepeated (concat (block hidden4 1 1 2)) \<and>
   (\<exists>st'. checkSubgrid \<lparr>row = 1, column = 1, psize = 4, slot = 0\<rparr>
             \<lparr>cells = hidden4, listInvalid = [False], listComplete = [True]\<rparr> = Inr st' \<and>
          listInvalid st' ! 0 \<and> listComplete st' = [True])"
proof -
  have inc: "list_all (\<lambda>i. \<not> fst (unit_scan {} (rowCells 4 twoBlanks4 i)) \<and>
                             \<not> fst (unit_scan {} (colCells 4 twoBlanks4 i))) [1..4] = False"
    by code_simp
  have blk: "block hidden4 1 1 2 = [[1, 1], [1, 1]]" by code_simp
  have ix: "indexable hidden4 (CheckSubgrid, 1, 1, 4)"
    by (simp add: isqrt_4 blk)
  have rep: "nonzeroRepeated (concat (block hidden4 1 1 2))"
    by (simp add: blk nonzeroRepeated_def)
  show ?thesis
    using subgrid_never_incomplete [of 4 twoBlanks4 "\<lparr>row = 1, column = 1, psize = 4, slot = 0\<rparr>"
        "\<lparr>cells = hidden4, listInvalid = [False], listComplete = [True]\<rparr>"]
      digits_twoBlanks4 ix rep
    by (auto simp: inc isqrt_4)
qed

subsection \<open>The fill pass in place\<close>

lemma filter_eq_upto:
  assumes "d \<in> {1..n}"
  shows "filter (\<lambda>x. x = d) [1..n] = [d]"
proof -
  from assms have "[1..n] = [1..d - 1] @ d # [d + 1..n]"
    by (intro upto_split3) simp_all
  then show ?thesis by (simp add: filter_empty_conv)
qed

lemma single_candidate:
  assumes "d \<in> {1..n}" and "{v \<in> set (peers n g r c). v \<noteq> 0} \<inter> {1..n} = {1..n} - {d}"
  shows "candidates n g r c = [d]"
proof -
  have "x \<notin> set (peers n g r c) \<longleftrightarrow> x = d" if "x \<in> set [1..n]" for x
  proof -
    from that have x: "x \<in> {1..n}" "x \<noteq> 0" by simp_all
    then have "x \<in> set (peers n g r c) \<longleftrightarrow> x \<in> {v \<in> set (peers n g r c). v \<noteq> 0} \<inter> {1..n}"
      by simp
    also have "\<dots> \<longleftrightarrow> x \<noteq> d" unfolding assms(2) using x by simp
    finally show ?thesis by simp
  qed
  then have "candidates n g r c = filter (\<lambda>x. x = d) [1..n]"
    unfolding candidates_def by (intro filter_cong) simp_all
  with filter_eq_upto [OF assms(1)] show ?thesis by simp
qed

lemma distinct_rowMajor: "distinct (rowMajor n)"
  unfolding rowMajor_def
  by (intro distinct_concat) (auto simp: distinct_map inj_on_def)

lemma fold_fillCell_other:
  "(r, c) \<notin> set ps \<Longrightarrow> fold (fillCell n) ps g r c = g r c"
proof (induction ps arbitrary: g)
  case Nil
  then show ?case by simp
next
  case (Cons p ps)
  obtain r' c' where p: "p = (r', c')" by (cases p)
  with Cons.prems have "(r, c) \<noteq> (r', c')" "(r, c) \<notin> set ps" by auto
  with Cons.IH [of "fillCell n p g"] p show ?case
    by (simp add: fillCell_other)
qed

lemma pass_at_cell:
  assumes "r \<in> {1..n}" and "c \<in> {1..n}"
  shows "fold (fillCell n) (rowMajor n) g r c =
           fillCell n (r, c) (fold (fillCell n) (takeWhile (\<lambda>p. p \<noteq> (r, c)) (rowMajor n)) g) r c"
proof -
  let ?pre = "takeWhile (\<lambda>p. p \<noteq> (r, c)) (rowMajor n)"
  let ?rest = "dropWhile (\<lambda>p. p \<noteq> (r, c)) (rowMajor n)"
  from assms have mem: "(r, c) \<in> set (rowMajor n)"
    unfolding rowMajor_def by force
  then have "?rest \<noteq> []" by (auto simp: dropWhile_eq_Nil_conv)
  moreover from this have "hd ?rest = (r, c)" using hd_dropWhile [of "\<lambda>p. p \<noteq> (r, c)" "rowMajor n"] by simp
  ultimately obtain post where rest: "?rest = (r, c) # post" by (cases ?rest) auto
  have split: "rowMajor n = ?pre @ (r, c) # post"
    using takeWhile_dropWhile_id [of "\<lambda>p. p \<noteq> (r, c)" "rowMajor n"] rest by simp
  have "distinct (?pre @ (r, c) # post)"
    using distinct_rowMajor [of n] split by simp
  then have "(r, c) \<notin> set post" by simp
  then have "fold (fillCell n) post (fillCell n (r, c) (fold (fillCell n) ?pre g)) r c =
      fillCell n (r, c) (fold (fillCell n) ?pre g) r c"
    by (rule fold_fillCell_other)
  moreover have "fold (fillCell n) (rowMajor n) g =
      fold (fillCell n) post (fillCell n (r, c) (fold (fillCell n) ?pre g))"
    by (subst split) simp
  ultimately show ?thesis by simp
qed

lemma asVisited_cell: "asVisited n g r c r c = g r c"
proof -
  have "(r, c) \<notin> set (takeWhile (\<lambda>p. p \<noteq> (r, c)) (rowMajor n))"
    by (auto dest: set_takeWhileD)
  then show ?thesis unfolding asVisited_def by (rule fold_fillCell_other)
qed

lemma pass_cell_result:
  assumes "r \<in> {1..n}" and "c \<in> {1..n}" and "g r c = 0"
  shows "fold (fillCell n) (rowMajor n) g r c =
           (case candidates n (asVisited n g r c) r c of [d] \<Rightarrow> d | _ \<Rightarrow> 0)"
proof -
  have z: "asVisited n g r c r c = 0" using assms(3) by (simp add: asVisited_cell)
  have "fold (fillCell n) (rowMajor n) g r c = fillCell n (r, c) (asVisited n g r c) r c"
    unfolding asVisited_def by (rule pass_at_cell [OF assms(1,2)])
  also have "\<dots> = (case candidates n (asVisited n g r c) r c of [d] \<Rightarrow> d | _ \<Rightarrow> 0)"
    using z by (simp add: fillCell_def split: list.splits)
  finally show ?thesis .
qed

text \<open>
  Claim C4, as the code has it. On a grid of size \<open>n\<close> whose cells do not exceed \<open>n\<close>,
  \<^verbatim>\<open>solveMissingNumber\<close> returns without a fault, and its result is that of visiting the
  cells in row-major order and applying to each the step of the specification on the grid as
  it stands when the cell is visited: the body of the loops gives an empty cell whose
  candidates (the digits \<open>1..n\<close> that are no value of its row or column) are exactly one
  digit that digit, and leaves the grid as it is otherwise. So a cell that is empty in the
  input holds after the pass the single candidate it has on the grid as visited, and 0 when
  it has none or several there; in particular, when the nonzero values of its row and column
  on the grid as visited are all digits but \<open>d\<close>, it holds \<open>d\<close>.
\<close>

theorem solveMissingNumber_single_candidate:
  "(0 \<le> n \<and> bounded n g \<longrightarrow>
      solveMissingNumber g n = Inr (fold (fillCell n) (rowMajor n) g)) \<and>
   (0 \<le> n \<and> bounded n g \<and> r \<in> {1..n} \<and> c \<in> {1..n} \<and> g r c = 0 \<longrightarrow>
      (\<exists>m'. solveCell n r c (g, m) =
         Inr (case candidates n g r c of [d] \<Rightarrow> g(r := (g r)(c := d)) | _ \<Rightarrow> g, m'))) \<and>
   (0 \<le> n \<and> bounded n g \<and> r \<in> {1..n} \<and> c \<in> {1..n} \<and> g r c = 0 \<longrightarrow>
      (\<exists>g'. solveMissingNumber g n = Inr g' \<and>
         g' r c = (case candidates n (asVisited n g r c) r c of [d] \<Rightarrow> d | _ \<Rightarrow> 0))) \<and>
   (0 \<le> n \<and> bounded n g \<and> r \<in> {1..n} \<and> c \<in> {1..n} \<and> g r c = 0 \<and> d \<in> {1..n} \<and>
    {v \<in> set (peers n (asVisited n g r c) r c). v \<noteq> 0} \<inter> {1..n} = {1..n} - {d} \<longrightarrow>
      (\<exists>g'. solveMissingNumber g n = Inr g' \<and> g' r c = d))"
proof (intro conjI impI)
  assume "0 \<le> n \<and> bounded n g"
  then show "solveMissingNumber g n = Inr (fold (fillCell n) (rowMajor n) g)"
    by (simp add: solveMissingNumber_pass)
next
  assume a: "0 \<le> n \<and> bounded n g \<and> r \<in> {1..n} \<and> c \<in> {1..n} \<and> g r c = 0"
  then have "\<forall>k \<in> {1..n}. g r k \<le> n \<and> g k c \<le> n"
    using boundedD [of n g] by blast
  from solveCell_fillCell [OF _ this, of m] a
  show "\<exists>m'. solveCell n r c (g, m) =
         Inr (case candidates n g r c of [d] \<Rightarrow> g(r := (g r)(c := d)) | _ \<Rightarrow> g, m')"
    by (simp add: fillCell_def)
next
  assume a: "0 \<le> n \<and> bounded n g \<and> r \<in> {1..n} \<and> c \<in> {1..n} \<and> g r c = 0"
  then have "solveMissingNumber g n = Inr (fold (fillCell n) (rowMajor n) g)"
    by (simp add: solveMissingNumber_pass)
  moreover from a have "fold (fillCell n) (rowMajor n) g r c =
      (case candidates n (asVisited n g r c) r c of [d] \<Rightarrow> d | _ \<Rightarrow> 0)"
    by (intro pass_cell_result) simp_all
  ultimately show "\<exists>g'. solveMissingNumber g n = Inr g' \<and>
      g' r c = (case candidates n (asVisited n g r c) r c of [d] \<Rightarrow> d | _ \<Rightarrow> 0)"
    by simp
next
  assume a: "0 \<le> n \<and> bounded n g \<and> r \<in> {1..n} \<and> c \<in> {1..n} \<and> g r c = 0 \<and> d \<in> {1..n} \<and>
    {v \<in> set (peers n (asVisited n g r c) r c). v \<noteq> 0} \<inter> {1..n} = {1..n} - {d}"
  then have "candidates n (asVisited n g r c) r c = [d]"
    by (intro single_candidate) simp_all
  moreover from a have "solveMissingNumber g n = Inr (fold (fillCell n) (rowMajor n) g)"
    by (simp add: solveMissingNumber_pass)
  moreover from a have "fold (fillCell n) (rowMajor n) g r c =
      (case candidates n (asVisited n g r c) r c of [d] \<Rightarrow> d | _ \<Rightarrow> 0)"
    by (intro pass_cell_result) simp_all
  ultimately show "\<exists>g'. solveMissingNumber g n = Inr g' \<and> g' r c = d"
    by simp
qed

lemma bounded_chain3: "bounded 3 chain3"
  unfolding bounded_def set_upto [symmetric] by code_simp

lemma pass_chain3:
  "printSudokuPuzzle 3 (fold (fillCell 3) (rowMajor 3) chain3) = [[3, 2, 1], [2, 0, 3], [1, 3, 2]]"
  by code_simp

lemma visited_chain3: "peers 3 (asVisited 3 chain3 1 2) 1 2 = [3, 0, 1, 0, 0, 0]"
  by code_simp

lemma candidates_chain3: "candidates 3 chain3 1 2 = [2, 3]"
  by code_simp

lemma empty_chain3: "chain3 1 2 = 0"
  by code_simp

theorem solveMissingNumber_single_candidate_witness:
  "(0::int) \<le> 3 \<and> bounded 3 chain3 \<and> (1::int) \<in> {1..3} \<and> (2::int) \<in> {1..3} \<and> chain3 1 2 = 0 \<and>
   {v \<in> set (peers 3 (asVisited 3 chain3 1 2) 1 2). v \<noteq> 0} \<inter> {1..3} = {1..3} - {2} \<and>
   (\<exists>m'. solveCell 3 1 2 (chain3, None) = Inr (chain3, m')) \<and>
   (\<exists>g'. solveMissingNumber chain3 3 = Inr g' \<and> g' 1 2 = 2) \<and>
   map_sum id (printSudokuPuzzle 3) (solveMissingNumber chain3 3) =
     Inr [[3, 2, 1], [2, 0, 3], [1, 3, 2]]"
proof -
  note T = solveMissingNumber_single_candidate [of 3 chain3 1 2 None 2]
  have p: "{v \<in> set (peers 3 (asVisited 3 chain3 1 2) 1 2). v \<noteq> 0} \<inter> {1..3} = {1..3} - {2}"
    unfolding visited_chain3 by auto
  have h1: "(0::int) \<le> 3 \<and> bounded 3 chain3"
    using bounded_chain3 by simp
  have h2: "(0::int) \<le> 3 \<and> bounded 3 chain3 \<and> (1::int) \<in> {1..3} \<and> (2::int) \<in> {1..3} \<and> chain3 1 2 = 0"
    using bounded_chain3 empty_chain3 by simp
  have h4: "(0::int) \<le> 3 \<and> bounded 3 chain3 \<and> (1::int) \<in> {1..3} \<and> (2::int) \<in> {1..3} \<and> chain3 1 2 = 0 \<and>
      (2::int) \<in> {1..3} \<and>
      {v \<in> set (peers 3 (asVisited 3 chain3 1 2) 1 2). v \<noteq> 0} \<inter> {1..3} = {1..3} - {2}"
    using h2 p by simp
  have c1: "solveMissingNumber chain3 3 = Inr (fold (fillCell 3) (rowMajor 3) chain3)"
    by (rule mp [OF T [THEN conjunct1] h1])
  have "\<exists>m'. solveCell 3 1 2 (chain3, None) =
      Inr (case candidates 3 chain3 1 2 of [d] \<Rightarrow> chain3(1 := (chain3 1)(2 := d)) | _ \<Rightarrow> chain3, m')"
    by (rule mp [OF T [THEN conjunct2, THEN conjunct1] h2])
  then have c2: "\<exists>m'. solveCell 3 1 2 (chain3, None) = Inr (chain3, m')"
    unfolding candidates_chain3 by simp
  have c4: "\<exists>g'. solveMissingNumber chain3 3 = Inr g' \<and> g' 1 2 = 2"
    by (rule mp [OF T [THEN conjunct2, THEN conjunct2, THEN conjunct2] h4])
  have c5: "map_sum id (printSudokuPuzzle 3) (solveMissingNumber chain3 3) =
      Inr [[3, 2, 1], [2, 0, 3], [1, 3, 2]]"
    unfolding c1 by (simp add: pass_chain3)
  from h2 p c2 c4 c5 show ?thesis by blast
qed

text \<open>
  Claim C4 as stated fails on the code when the row and column values are those of the
  input: in the grid \<open>blocked3\<close> the cell at row 1, column 2 is empty, the values of its
  row and column are the two digits 1 and 2, so that 3 is its single candidate, and after
  one call of \<^verbatim>\<open>solveMissingNumber\<close> the cell is still empty: the cell to its left is
  visited first and takes the 3.
\<close>

theorem solveMissingNumber_candidate_taken:
  "blocked3 1 2 = 0 \<and> peers 3 blocked3 1 2 = [0, 0, 1, 0, 0, 2] \<and>
   candidates 3 blocked3 1 2 = [3] \<and>
   map_sum id (printSudokuPuzzle 3) (solveMissingNumber blocked3 3) =
     Inr [[3, 0, 1], [2, 0, 3], [1, 2, 0]]"
  by code_simp

text \<open>
  Claim C10. The content of a cell after one call of \<^verbatim>\<open>solveMissingNumber\<close> is decided by
  the step on that cell applied to the grid in which all cells before it in row-major order
  have already been processed, so the values written there count among its row and column
  values. In the grid \<open>chain3\<close> the cell at row 1, column 2 is empty and has the two
  candidates 2 and 3; one call fills the cell to its left with 3 and then this cell with 2.
\<close>

theorem solveMissingNumber_in_place:
  "(0 \<le> n \<and> bounded n g \<and> r \<in> {1..n} \<and> c \<in> {1..n} \<longrightarrow>
      (\<exists>g'. solveMissingNumber g n = Inr g' \<and>
         g' r c = fillCell n (r, c)
                    (fold (fillCell n) (takeWhile (\<lambda>p. p \<noteq> (r, c)) (rowMajor n)) g) r c)) \<and>
   chain3 1 2 = 0 \<and> candidates 3 chain3 1 2 = [2, 3] \<and>
   map_sum id (printSudokuPuzzle 3) (solveMissingNumber chain3 3) =
     Inr [[3, 2, 1], [2, 0, 3], [1, 3, 2]]"
proof (intro conjI impI)
  assume a: "0 \<le> n \<and> bounded n g \<and> r \<in> {1..n} \<and> c \<in> {1..n}"
  then have "solveMissingNumber g n = Inr (fold (fillCell n) (rowMajor n) g)"
    by (simp add: solveMissingNumber_pass)
  with a pass_at_cell [of r n c g]
  show "\<exists>g'. solveMissingNumber g n = Inr g' \<and>
         g' r c = fillCell n (r, c)
                    (fold (fillCell n) (takeWhile (\<lambda>p. p \<noteq> (r, c)) (rowMajor n)) g) r c"
    by simp
next
  show "chain3 1 2 = 0" by code_simp
next
  show "candidates 3 chain3 1 2 = [2, 3]" by code_simp
next
  have "solveMissingNumber chain3 3 = Inr (fold (fillCell 3) (rowMajor 3) chain3)"
    using bounded_chain3 by (simp add: solveMissingNumber_pass)
  then show "map_sum id (printSudokuPuzzle 3) (solveMissingNumber chain3 3) =
     Inr [[3, 2, 1], [2, 0, 3], [1, 3, 2]]"
    by (simp add: pass_chain3)
qed

lemma before_chain3: "takeWhile (\<lambda>p. p \<noteq> (1, 2)) (rowMajor 3) = [(1, 1)]"
  by code_simp

lemma step_chain3: "fillCell 3 (1, 2) (fillCell 3 (1, 1) chain3) 1 2 = 2"
  by code_simp

theorem solveMissingNumber_in_place_witness:
  "(0::int) \<le> 3 \<and> bounded 3 chain3 \<and> (1::int) \<in> {1..3} \<and> (2::int) \<in> {1..3} \<and>
   (\<exists>g'. solveMissingNumber chain3 3 = Inr g' \<and> g' 1 2 = 2)"
  using solveMissingNumber_in_place [of 3 chain3 1 2] bounded_chain3
  by (auto simp: before_chain3 step_chain3)

end
